theory Spec2Isabelle
  imports Main "HOL-Library.Char_ord" "HOL-Library.List_Lexorder" "HOL-Library.AList"
begin

section \<open>pysnmp.smi.instrum: the MIB instrumentation controller\<close>

text \<open>
  A shallow embedding of \<^verbatim>\<open>MibInstrumController\<close> (pysnmp/smi/instrum.py): the three
  transition tables, the tree indexer \<^verbatim>\<open>__indexMib\<close> and the dispatch engine
  \<^verbatim>\<open>flipFlopFsm\<close> with its completion closure \<^verbatim>\<open>_cbFun\<close>.
\<close>

subsection \<open>Exceptions\<close>

text \<open>
  Modelled from the spec: the module \<^verbatim>\<open>pysnmp.smi.error\<close> is not among the sources.
  \<^verbatim>\<open>SmiError\<close> is the base class; the three per-binding semantic errors
  (no such object, no such instance, end of MIB view) are pairwise unrelated subclasses
  of it. \<open>SmiError msg\<close> stands for an instance of \<^verbatim>\<open>SmiError\<close> or of any other
  subclass. The remaining constructors are the Python built-ins the engine itself can
  raise, and \<open>OtherException\<close> is any exception that is not an \<^verbatim>\<open>SmiError\<close>.
\<close>

datatype exn =
    SmiError string
  | NoSuchObjectError
  | NoSuchInstanceError
  | EndOfMibViewError
  | KeyError string
  | TypeError
  | IndexError
  | AttributeError string
  | OtherException nat

fun isSmiError :: "exn \<Rightarrow> bool" where
  "isSmiError (SmiError m) = True"
| "isSmiError NoSuchObjectError = True"
| "isSmiError NoSuchInstanceError = True"
| "isSmiError EndOfMibViewError = True"
| "isSmiError e = False"

subsection \<open>States, statuses and the transition tables\<close>

datatype state =
    STATE_START
  | STATE_STOP
  | STATE_ANY
  | STATE_READ_TEST
  | STATE_READ_GET
  | STATE_READ_TEST_NEXT
  | STATE_READ_GET_NEXT
  | STATE_WRITE_TEST
  | STATE_WRITE_COMMIT
  | STATE_WRITE_CLEANUP
  | STATE_WRITE_UNDO

datatype status = STATUS_OK | STATUS_ERROR

type_synonym fsmTable = "((state \<times> status) \<times> state) list"

definition fsmReadVar :: fsmTable where
  "fsmReadVar =
    [((STATE_START, STATUS_OK), STATE_READ_TEST),
     ((STATE_READ_TEST, STATUS_OK), STATE_READ_GET),
     ((STATE_READ_GET, STATUS_OK), STATE_STOP),
     ((STATE_ANY, STATUS_ERROR), STATE_STOP)]"

definition fsmReadNextVar :: fsmTable where
  "fsmReadNextVar =
    [((STATE_START, STATUS_OK), STATE_READ_TEST_NEXT),
     ((STATE_READ_TEST_NEXT, STATUS_OK), STATE_READ_GET_NEXT),
     ((STATE_READ_GET_NEXT, STATUS_OK), STATE_STOP),
     ((STATE_ANY, STATUS_ERROR), STATE_STOP)]"

definition fsmWriteVar :: fsmTable where
  "fsmWriteVar =
    [((STATE_START, STATUS_OK), STATE_WRITE_TEST),
     ((STATE_WRITE_TEST, STATUS_OK), STATE_WRITE_COMMIT),
     ((STATE_WRITE_COMMIT, STATUS_OK), STATE_WRITE_CLEANUP),
     ((STATE_WRITE_CLEANUP, STATUS_OK), STATE_READ_TEST),
     ((STATE_READ_TEST, STATUS_OK), STATE_READ_GET),
     ((STATE_READ_GET, STATUS_OK), STATE_STOP),
     ((STATE_WRITE_TEST, STATUS_ERROR), STATE_WRITE_CLEANUP),
     ((STATE_WRITE_COMMIT, STATUS_ERROR), STATE_WRITE_UNDO),
     ((STATE_WRITE_UNDO, STATUS_OK), STATE_READ_TEST),
     ((STATE_READ_TEST, STATUS_ERROR), STATE_STOP),
     ((STATE_READ_GET, STATUS_ERROR), STATE_STOP),
     ((STATE_ANY, STATUS_ERROR), STATE_STOP)]"

text \<open>
  The lookup of \<^verbatim>\<open>flipFlopFsm\<close>: \<^verbatim>\<open>fsmTable[(state, status)]\<close>, on a missing key
  \<^verbatim>\<open>fsmTable[(STATE_ANY, status)]\<close>, and \<^verbatim>\<open>SmiError\<close> when both are missing.
\<close>

definition newState :: "fsmTable \<Rightarrow> state \<Rightarrow> status \<Rightarrow> exn + state" where
  "newState fsmTable st su =
    (case map_of fsmTable (st, su) of
       Some n \<Rightarrow> Inr n
     | None \<Rightarrow>
        (case map_of fsmTable (STATE_ANY, su) of
           Some n \<Rightarrow> Inr n
         | None \<Rightarrow> Inl (SmiError ''Unresolved FSM state'')))"

text \<open>
  The states a batch passes through from a state, for a given sequence of the statuses
  with which its rounds are entered; the walk ends at \<open>STATE_STOP\<close> or at an
  unresolved transition.
\<close>

fun fsmWalk :: "fsmTable \<Rightarrow> state \<Rightarrow> status list \<Rightarrow> state list" where
  "fsmWalk fsmTable st [] = []"
| "fsmWalk fsmTable st (su # sus) =
    (case newState fsmTable st su of
       Inl e \<Rightarrow> []
     | Inr n \<Rightarrow> (if n = STATE_STOP then [n] else n # fsmWalk fsmTable n sus))"

subsection \<open>The tree indexer\<close>

type_synonym oid = "nat list"

text \<open>
  Modelled from the spec: the node classes come from the module \<^verbatim>\<open>SNMPv2-SMI\<close>, which
  is not among the sources. \<open>variant\<close> is the branch of the \<^verbatim>\<open>isinstance\<close> chain of
  \<^verbatim>\<open>__indexMib\<close> that an object takes; \<open>Unmanaged\<close> is an object that takes none
  (a definition or constant that is not a Managed Object). \<open>ident\<close> is the identity
  of the Python object.
\<close>

datatype variant =
    MibTable | MibTableRow | MibTableColumn | MibScalarInstance | MibScalar | Unmanaged

record symObj =
  variant :: variant
  name :: oid
  typeName :: oid
  ident :: nat

text \<open>Dictionaries are association lists in insertion order; a store to an existing
  key keeps its place (\<open>AList.update\<close>).\<close>

record mibBuilder =
  mb_lastBuildId :: int
  mibSymbols :: "(string \<times> (string \<times> symObj) list) list"
  iso :: oid

record controller =
  mibBuilder :: mibBuilder
  lastBuildId :: int
  lastBuildSyms :: "(oid \<times> oid) list"

text \<open>The calls made on the nodes of the tree, in order; \<open>Root\<close> is the node \<^verbatim>\<open>iso\<close>.\<close>

datatype nodeRef = Root | Node symObj

datatype treeOp =
    registerSubtrees nodeRef symObj
  | unregisterSubtrees nodeRef oid

record buckets =
  scalars :: "(oid \<times> symObj) list"
  instances :: "(oid \<times> symObj) list"
  tables :: "(oid \<times> symObj) list"
  rows :: "(oid \<times> symObj) list"
  cols :: "(oid \<times> symObj) list"

definition noBuckets :: buckets where
  "noBuckets = \<lparr>scalars = [], instances = [], tables = [], rows = [], cols = []\<rparr>"

definition classify :: "buckets \<Rightarrow> symObj \<Rightarrow> buckets" where
  "classify b symObj =
    (if variant symObj = MibTable then
       b\<lparr>tables := AList.update (name symObj) symObj (tables b)\<rparr>
     else if variant symObj = MibTableRow then
       b\<lparr>rows := AList.update (name symObj) symObj (rows b)\<rparr>
     else if variant symObj = MibTableColumn then
       b\<lparr>cols := AList.update (name symObj) symObj (cols b)\<rparr>
     else if variant symObj = MibScalarInstance then
       b\<lparr>instances := AList.update (name symObj) symObj (instances b)\<rparr>
     else if variant symObj = MibScalar then
       b\<lparr>scalars := AList.update (name symObj) symObj (scalars b)\<rparr>
     else b)"

text \<open>\<^verbatim>\<open>mibSymbols.sort(key=lambda x: x[0], reverse=True)\<close>: a stable sort in
  descending order of the module name.\<close>

definition sortedModules ::
  "(string \<times> (string \<times> symObj) list) list \<Rightarrow> (string \<times> (string \<times> symObj) list) list" where
  "sortedModules ms = rev (sort_key fst (rev ms))"

definition collect :: "(string \<times> (string \<times> symObj) list) list \<Rightarrow> buckets" where
  "collect ms =
    foldl (\<lambda>b (modName, mibMod). foldl classify b (map snd mibMod)) noBuckets (sortedModules ms)"


definition detach :: "buckets \<Rightarrow> oid \<times> oid \<Rightarrow> treeOp" where
  "detach b = (\<lambda>(symName, parentName).
    (case map_of (scalars b) parentName of
       Some p \<Rightarrow> unregisterSubtrees (Node p) symName
     | None \<Rightarrow>
      (case map_of (cols b) parentName of
         Some p \<Rightarrow> unregisterSubtrees (Node p) symName
       | None \<Rightarrow>
        (case map_of (rows b) parentName of
           Some p \<Rightarrow> unregisterSubtrees (Node p) symName
         | None \<Rightarrow> unregisterSubtrees Root symName))))"

type_synonym build = "(oid \<times> oid) list \<times> treeOp list"

fun attachInstances :: "buckets \<Rightarrow> symObj list \<Rightarrow> build \<Rightarrow> exn option \<times> build" where
  "attachInstances b [] (syms, ops) = (None, (syms, ops))"
| "attachInstances b (inst # insts) (syms, ops) =
    (case map_of (scalars b) (typeName inst) of
       Some p \<Rightarrow>
         attachInstances b insts
           (AList.update (name inst) (typeName inst) syms, ops @ [registerSubtrees (Node p) inst])
     | None \<Rightarrow>
        (case map_of (cols b) (typeName inst) of
           Some p \<Rightarrow>
             attachInstances b insts
               (AList.update (name inst) (typeName inst) syms,
                ops @ [registerSubtrees (Node p) inst])
         | None \<Rightarrow> (Some (SmiError ''Orphan MIB scalar instance''), (syms, ops))))"

fun attachColumns :: "buckets \<Rightarrow> symObj list \<Rightarrow> build \<Rightarrow> exn option \<times> build" where
  "attachColumns b [] (syms, ops) = (None, (syms, ops))"
| "attachColumns b (col # colz) (syms, ops) =
    (let rowName = butlast (name col) in
     case map_of (rows b) rowName of
       Some r \<Rightarrow>
         attachColumns b colz
           (AList.update (name col) rowName syms, ops @ [registerSubtrees (Node r) col])
     | None \<Rightarrow> (Some (SmiError ''Orphan MIB table column''), (syms, ops)))"

definition attachRoot :: "oid \<Rightarrow> build \<Rightarrow> symObj \<Rightarrow> build" where
  "attachRoot rootName = (\<lambda>(syms, ops) obj.
     (AList.update (name obj) rootName syms, ops @ [registerSubtrees Root obj]))"

text \<open>
  \<^verbatim>\<open>__indexMib\<close>. The result is the exception raised (if any), the controller and the
  calls made on the tree so far: the calls already made stay made when the pass raises.
\<close>

definition indexMib :: "controller \<Rightarrow> treeOp list \<Rightarrow> exn option \<times> controller \<times> treeOp list" where
  "indexMib self ops =
    (if lastBuildId self = mb_lastBuildId (mibBuilder self) then (None, self, ops)
     else
       let b = collect (mibSymbols (mibBuilder self));
           ops1 = ops @ map (detach b) (lastBuildSyms self)
       in case attachInstances b (map snd (instances b)) ([], ops1) of
          (Some e, (syms, ops2)) \<Rightarrow> (Some e, self, ops2)
        | (None, bd2) \<Rightarrow>
           (case attachColumns b (map snd (cols b)) bd2 of
              (Some e, (syms, ops3)) \<Rightarrow> (Some e, self, ops3)
            | (None, bd3) \<Rightarrow>
               (let rootName = iso (mibBuilder self);
                    bd4 = foldl (attachRoot rootName) bd3 (map snd (rows b));
                    bd5 = foldl (attachRoot rootName) bd4 (map snd (tables b));
                    bd6 = foldl (attachRoot rootName) bd5 (map snd (scalars b))
                in (None,
                    self\<lparr>lastBuildSyms := fst bd6,
                         lastBuildId := mb_lastBuildId (mibBuilder self)\<rparr>,
                    snd bd6))))"

subsection \<open>Notions used to state the properties of the indexer\<close>

definition matching :: "variant \<Rightarrow> oid \<Rightarrow> symObj list \<Rightarrow> symObj list" where
  "matching v x objs = filter (\<lambda>obj. variant obj = v \<and> name obj = x) objs"

definition allObjs :: "(string \<times> (string \<times> symObj) list) list \<Rightarrow> symObj list" where
  "allObjs ms = concat (map (\<lambda>(modName, mibMod). map snd mibMod) ms)"

definition objA :: symObj where
  "objA = \<lparr>variant = MibScalar, name = [1, 3, 6, 1], typeName = [], ident = 1\<rparr>"

definition objZ :: symObj where
  "objZ = \<lparr>variant = MibScalar, name = [1, 3, 6, 1], typeName = [], ident = 2\<rparr>"

definition twoModules :: "(string \<times> (string \<times> symObj) list) list" where
  "twoModules = [(''AAA'', [(''X'', objA)]), (''ZZZ'', [(''X'', objZ)])]"

definition orphanController :: controller where
  "orphanController =
    \<lparr>mibBuilder =
       \<lparr>mb_lastBuildId = 1,
        mibSymbols =
          [(''M'', [(''inst'',
              \<lparr>variant = MibScalarInstance, name = [1, 3, 1, 0], typeName = [1, 3, 1],
               ident = 0\<rparr>)])],
        iso = [1]\<rparr>,
     lastBuildId = - 1,
     lastBuildSyms = []\<rparr>"


definition freshController :: controller where
  "freshController =
    \<lparr>mibBuilder = \<lparr>mb_lastBuildId = 1, mibSymbols = twoModules, iso = [1]\<rparr>,
     lastBuildId = - 1,
     lastBuildSyms = []\<rparr>"

subsection \<open>Values, variable bindings and the context\<close>

text \<open>
  Modelled from the spec: the module \<^verbatim>\<open>pysnmp.proto.rfc1905\<close> is not among the
  sources. Its three placeholder markers are \<open>noSuchObject\<close>, \<open>noSuchInstance\<close> and
  \<open>endOfMibView\<close>. A value is otherwise a plain value or the tuple of
  \<^verbatim>\<open>sys.exc_info()\<close>, of which only the exception instance matters.
\<close>

datatype 'v val =
    Value 'v
  | ExcInfo exn
  | noSuchObject
  | noSuchInstance
  | endOfMibView

type_synonym 'v varBind = "oid \<times> 'v val"

text \<open>
  What the key \<^verbatim>\<open>cbFun\<close> of a context holds: the continuation of the caller, or the
  closure \<^verbatim>\<open>_cbFun\<close> of a round.
\<close>

datatype callee = UserCbFun | RoundCbFun nat

text \<open>
  The keyword dictionary \<^verbatim>\<open>context\<close>, one optional field for each key the engine
  reads or writes (\<open>None\<close>, or \<open>False\<close>, is an absent key). \<open>ctx_varBinds\<close> is a
  reference to a list object, since all the completions of a batch store into one list.
  Keys of the caller's own are carried along untouched and are left out.
\<close>

record ctx =
  ctx_cbFun :: "callee option"
  ctx_idx :: "nat option"
  ctx_state :: "state option"
  ctx_status :: "status option"
  ctx_varBinds :: "nat option"
  ctx_oName :: bool
  ctx_fsmContext :: bool

datatype 'v event =
    Dispatch nat state nat
  | Delivered "'v varBind list" ctx

datatype outcome = Returned | Raised exn | OutOfFuel

text \<open>
  The mutable state: the list objects by address, the cell \<^verbatim>\<open>count\<close> of the closure of
  each round, the completions that phase methods have put off, the log of the phase
  methods invoked (round, method, index) and of the batches handed to the continuation,
  and the controller with the calls it made on the tree.
\<close>

record 'v world =
  heap :: "nat \<Rightarrow> 'v varBind list"
  nextAddr :: nat
  counts :: "nat \<Rightarrow> nat"
  nextRound :: nat
  pending :: "(nat \<times> 'v varBind \<times> ctx) list"
  trace :: "'v event list"
  w_self :: controller
  treeOps :: "treeOp list"

text \<open>
  Modelled from the spec: the tree of Managed Objects (\<^verbatim>\<open>mibTree\<close>, from
  \<^verbatim>\<open>SNMPv2-SMI\<close>) is not among the sources. It has the eight phase methods. An
  invocation of one, for a binding and a context, either raises, or completes by calling
  the \<^verbatim>\<open>cbFun\<close> of the context it was given with a result binding and that same context:
  before it returns (\<open>CompletesNow\<close>) or at some time after \<^verbatim>\<open>flipFlopFsm\<close> has
  returned (\<open>CompletesLater\<close>). A tree is a function of the round, the method and the
  index, so that every invocation is free to behave in its own way.
\<close>

datatype 'v behaviour =
    Raises exn
  | CompletesNow "'v varBind"
  | CompletesLater "'v varBind"

type_synonym 'v mibTree = "nat \<Rightarrow> state \<Rightarrow> nat \<Rightarrow> 'v behaviour"

definition phaseMethods :: "state list" where
  "phaseMethods =
    [STATE_READ_TEST, STATE_READ_GET, STATE_READ_TEST_NEXT, STATE_READ_GET_NEXT,
     STATE_WRITE_TEST, STATE_WRITE_COMMIT, STATE_WRITE_CLEANUP, STATE_WRITE_UNDO]"

subsection \<open>The completion closure\<close>

text \<open>
  Modelled from the spec: reading an attribute of the module \<^verbatim>\<open>rfc1905\<close>, which is not
  among the sources. The module has the three markers under their own names; the name
  of anything else raises \<^verbatim>\<open>AttributeError\<close>.
\<close>

definition rfc1905 :: "string \<Rightarrow> exn + 'v val" where
  "rfc1905 attr =
    (if attr = ''noSuchObject'' then Inr noSuchObject
     else if attr = ''noSuchInstance'' then Inr noSuchInstance
     else if attr = ''endOfMibView'' then Inr endOfMibView
     else Inl (AttributeError attr))"

text \<open>
  ``Watch for possible exception tuple'': for each of the three semantic errors an
  attribute of \<^verbatim>\<open>rfc1905\<close> is read, \<^verbatim>\<open>noSuchObject\<close>, \<^verbatim>\<open>noSuchOInstance\<close> and
  \<^verbatim>\<open>endOfMibView\<close>; for any other exception \<^verbatim>\<open>raise value\<close> is run on the tuple,
  which is a \<^verbatim>\<open>TypeError\<close> in Python 3.
\<close>

definition watchExc :: "'v val \<Rightarrow> exn + 'v val" where
  "watchExc v =
    (case v of
       ExcInfo exc_value \<Rightarrow>
         (if exc_value = NoSuchObjectError then rfc1905 ''noSuchObject''
          else if exc_value = NoSuchInstanceError then rfc1905 ''noSuchOInstance''
          else if exc_value = EndOfMibViewError then rfc1905 ''endOfMibView''
          else Inl TypeError)
     | _ \<Rightarrow> Inr v)"

text \<open>
  \<^verbatim>\<open>_cbFun\<close>, the closure of the round \<open>rid\<close>, over \<^verbatim>\<open>count\<close>, \<^verbatim>\<open>varBinds\<close> and
  \<^verbatim>\<open>self.flipFlopFsm\<close> (\<open>recur\<close>). The store \<^verbatim>\<open>_varBinds[idx] = name, value\<close> comes
  before the test \<^verbatim>\<open>idx is None\<close>, and with \<^verbatim>\<open>idx\<close> \<^verbatim>\<open>None\<close> it raises \<^verbatim>\<open>TypeError\<close> on
  a list: the branch that would hand the batch to the continuation is never taken. The
  next round is entered with the \<^verbatim>\<open>cbFun\<close> of this one, which is the continuation of the
  caller in every round of a batch that an entry point started.
\<close>

definition cbFun' ::
  "(ctx \<Rightarrow> 'v world \<Rightarrow> outcome \<times> 'v world) \<Rightarrow> 'v varBind list \<Rightarrow> nat \<Rightarrow>
   'v varBind option \<Rightarrow> ctx \<Rightarrow> 'v world \<Rightarrow> outcome \<times> 'v world" where
  "cbFun' recur varBinds rid varBind context0 w =
    (let idx = ctx_idx context0;
         context = context0\<lparr>ctx_idx := None\<rparr>
     in case ctx_varBinds context of
          None \<Rightarrow> (Raised (KeyError ''varBinds''), w)
        | Some a \<Rightarrow>
           (case varBind of
              None \<Rightarrow> (Raised TypeError, w)
            | Some (nm, v) \<Rightarrow>
               (case watchExc v of
                  Inl e \<Rightarrow> (Raised e, w)
                | Inr v' \<Rightarrow>
                   (case idx of
                      None \<Rightarrow> (Raised TypeError, w)
                    | Some i \<Rightarrow>
                       if \<not> i < length (heap w a) then (Raised IndexError, w)
                       else
                         let w1 = w\<lparr>heap := (heap w)(a := (heap w a)[i := (nm, v')])\<rparr>;
                             w2 = w1\<lparr>counts := (counts w1)(rid := counts w1 rid + 1)\<rparr>
                         in if counts w2 rid < length varBinds then (Returned, w2)
                            else recur (context\<lparr>ctx_cbFun := Some UserCbFun\<rparr>) w2))))"

subsection \<open>The dispatch engine\<close>

text \<open>
  The first entry of a batch: when one of the keys \<^verbatim>\<open>state\<close>, \<^verbatim>\<open>status\<close>,
  \<^verbatim>\<open>varBinds\<close> is missing, the batch starts at \<open>(STATE_START, STATUS_OK)\<close> with a fresh
  copy of the bindings, and the tree is indexed.
\<close>

definition enter ::
  "'v varBind list \<Rightarrow> ctx \<Rightarrow> 'v world \<Rightarrow> exn option \<times> (state \<times> status \<times> nat) \<times> 'v world" where
  "enter varBinds context w =
    (case (ctx_state context, ctx_status context, ctx_varBinds context) of
       (Some st, Some su, Some a) \<Rightarrow> (None, (st, su, a), w)
     | _ \<Rightarrow>
        (let a = nextAddr w;
             w1 = w\<lparr>heap := (heap w)(a := varBinds), nextAddr := a + 1\<rparr>
         in case indexMib (w_self w1) (treeOps w1) of
              (e, self', ops') \<Rightarrow>
                (e, (STATE_START, STATUS_OK, a), w1\<lparr>w_self := self', treeOps := ops'\<rparr>)))"

text \<open>\<^verbatim>\<open>cbFun(_varBinds, **context)\<close> at \<open>STATE_STOP\<close>; the key \<^verbatim>\<open>varBinds\<close> has been
  popped, so a closure \<^verbatim>\<open>_cbFun\<close> in the place of the continuation would raise.\<close>

definition stop :: "callee \<Rightarrow> 'v varBind list \<Rightarrow> ctx \<Rightarrow> 'v world \<Rightarrow> outcome \<times> 'v world" where
  "stop cbFun batch context w =
    (case cbFun of
       UserCbFun \<Rightarrow> (Returned, w\<lparr>trace := trace w @ [Delivered batch context]\<rparr>)
     | RoundCbFun r \<Rightarrow> (Raised (KeyError ''varBinds''), w))"

text \<open>
  The loop \<^verbatim>\<open>for idx, varBind in enumerate(varBinds)\<close>. An exception that leaves the
  phase method, raised by it or by a completion it made before returning, is caught when
  it is an \<^verbatim>\<open>SmiError\<close>: the closure is called with the captured exception and the
  context of the round with \<^verbatim>\<open>status\<close> set to \<open>STATUS_ERROR\<close>, and the loop is left.
\<close>

fun dispatch ::
  "(ctx \<Rightarrow> 'v world \<Rightarrow> outcome \<times> 'v world) \<Rightarrow> 'v mibTree \<Rightarrow> 'v varBind list \<Rightarrow> nat \<Rightarrow>
   state \<Rightarrow> status \<Rightarrow> nat \<Rightarrow> ctx \<Rightarrow> (nat \<times> 'v varBind) list \<Rightarrow> 'v world \<Rightarrow>
   outcome \<times> 'v world" where
  "dispatch recur mibTree varBinds rid st su a context [] w = (Returned, w)"
| "dispatch recur mibTree varBinds rid st su a context ((idx, varBind) # rest) w =
    (if ctx_idx context \<noteq> None then (Raised TypeError, w)
     else
       let w1 = w\<lparr>trace := trace w @ [Dispatch rid st idx]\<rparr>;
           mctx = context\<lparr>ctx_cbFun := Some (RoundCbFun rid), ctx_idx := Some idx,
                          ctx_state := Some st, ctx_status := Some su,
                          ctx_varBinds := Some a, ctx_oName := True\<rparr>;
           r = (case mibTree rid st idx of
                  Raises e \<Rightarrow> (Raised e, w1)
                | CompletesNow vb \<Rightarrow> cbFun' recur varBinds rid (Some vb) mctx w1
                | CompletesLater vb \<Rightarrow>
                    (Returned, w1\<lparr>pending := pending w1 @ [(rid, vb, mctx)]\<rparr>))
       in case r of
            (Returned, w2) \<Rightarrow> dispatch recur mibTree varBinds rid st su a context rest w2
          | (Raised e, w2) \<Rightarrow>
              (if isSmiError e then
                 cbFun' recur varBinds rid (Some (fst varBind, ExcInfo e))
                   (context\<lparr>ctx_idx := Some idx, ctx_status := Some STATUS_ERROR\<rparr>) w2
               else (Raised e, w2))
          | (OutOfFuel, w2) \<Rightarrow> (OutOfFuel, w2))"

text \<open>One call of \<^verbatim>\<open>flipFlopFsm\<close>, with \<open>recur\<close> for the calls it makes of itself.\<close>

definition flipFlopFsmRound ::
  "(ctx \<Rightarrow> 'v world \<Rightarrow> outcome \<times> 'v world) \<Rightarrow> 'v mibTree \<Rightarrow> fsmTable \<Rightarrow> 'v varBind list \<Rightarrow>
   ctx \<Rightarrow> 'v world \<Rightarrow> outcome \<times> 'v world" where
  "flipFlopFsmRound recur mibTree fsmTable varBinds context w0 =
    (let rid = nextRound w0;
         w = w0\<lparr>counts := (counts w0)(rid := 0), nextRound := rid + 1\<rparr>
     in case ctx_cbFun context of
          None \<Rightarrow> (Raised (KeyError ''cbFun''), w)
        | Some cbFun \<Rightarrow>
           (case enter varBinds context w of
              (Some e, x, w1) \<Rightarrow> (Raised e, w1)
            | (None, (st0, su, a), w1) \<Rightarrow>
               (case newState fsmTable st0 su of
                  Inl e \<Rightarrow> (Raised e, w1)
                | Inr st \<Rightarrow>
                   if st = STATE_STOP then
                     stop cbFun (heap w1 a)
                       (context\<lparr>ctx_fsmContext := False, ctx_state := None, ctx_status := None,
                                ctx_varBinds := None, ctx_oName := False\<rparr>) w1
                   else if varBinds = [] then cbFun' recur varBinds rid None context w1
                   else if st \<notin> set phaseMethods then
                     (Raised (SmiError ''Unsupported state handler''), w1)
                   else
                     dispatch recur mibTree varBinds rid st su a context
                       (enumerate 0 varBinds) w1)))"

text \<open>
  \<^verbatim>\<open>flipFlopFsm\<close>. The recursion has no bound of its own in the source, so the depth of
  the calls is bounded by \<open>fuel\<close>, and \<open>OutOfFuel\<close> is the result when it runs out.
\<close>

primrec flipFlopFsm ::
  "nat \<Rightarrow> 'v mibTree \<Rightarrow> fsmTable \<Rightarrow> 'v varBind list \<Rightarrow> ctx \<Rightarrow> 'v world \<Rightarrow> outcome \<times> 'v world"
  where
  "flipFlopFsm 0 mibTree fsmTable varBinds = (\<lambda>context w. (OutOfFuel, w))"
| "flipFlopFsm (Suc fuel) mibTree fsmTable varBinds =
     flipFlopFsmRound (flipFlopFsm fuel mibTree fsmTable varBinds) mibTree fsmTable varBinds"

definition readVars ::
  "nat \<Rightarrow> 'v mibTree \<Rightarrow> 'v varBind list \<Rightarrow> ctx \<Rightarrow> 'v world \<Rightarrow> outcome \<times> 'v world" where
  "readVars fuel mibTree varBinds context w =
     flipFlopFsm fuel mibTree fsmReadVar varBinds context w"

definition readNextVars ::
  "nat \<Rightarrow> 'v mibTree \<Rightarrow> 'v varBind list \<Rightarrow> ctx \<Rightarrow> 'v world \<Rightarrow> outcome \<times> 'v world" where
  "readNextVars fuel mibTree varBinds context w =
     flipFlopFsm fuel mibTree fsmReadNextVar varBinds context w"

definition writeVars ::
  "nat \<Rightarrow> 'v mibTree \<Rightarrow> 'v varBind list \<Rightarrow> ctx \<Rightarrow> 'v world \<Rightarrow> outcome \<times> 'v world" where
  "writeVars fuel mibTree varBinds context w =
     flipFlopFsm fuel mibTree fsmWriteVar varBinds context w"

subsection \<open>Completions that arrive later\<close>

text \<open>
  The \<open>k\<close>-th of the completions put off is made: the phase method calls the closure of
  its round with its result and the context it was given. An exception raised then goes to
  whoever made the call, not to the caller of the entry point.
\<close>

definition complete ::
  "nat \<Rightarrow> 'v mibTree \<Rightarrow> fsmTable \<Rightarrow> 'v varBind list \<Rightarrow> 'v world \<Rightarrow> nat \<Rightarrow> 'v world" where
  "complete fuel mibTree fsmTable varBinds w k =
    (if k < length (pending w) then
       (case pending w ! k of
          (rid, vb, mctx) \<Rightarrow>
            snd (cbFun' (flipFlopFsm fuel mibTree fsmTable varBinds) varBinds rid (Some vb) mctx
                  (w\<lparr>pending := take k (pending w) @ drop (Suc k) (pending w)\<rparr>)))
     else w)"

text \<open>An entry point is called, and afterwards the completions put off arrive in the
  order that \<open>order\<close> gives (each number picks one of those still outstanding).\<close>

definition run ::
  "nat \<Rightarrow> 'v mibTree \<Rightarrow> fsmTable \<Rightarrow> 'v varBind list \<Rightarrow> ctx \<Rightarrow> nat list \<Rightarrow> 'v world \<Rightarrow> 'v world"
  where
  "run fuel mibTree fsmTable varBinds context order w =
     foldl (complete fuel mibTree fsmTable varBinds)
       (snd (flipFlopFsm fuel mibTree fsmTable varBinds context w)) order"

definition topContext :: ctx where
  "topContext =
    \<lparr>ctx_cbFun = Some UserCbFun, ctx_idx = None, ctx_state = None, ctx_status = None,
     ctx_varBinds = None, ctx_oName = False, ctx_fsmContext = False\<rparr>"

definition initWorld :: "controller \<Rightarrow> 'v world" where
  "initWorld c =
    \<lparr>heap = (\<lambda>a. []), nextAddr = 0, counts = (\<lambda>r. 0), nextRound = 0, pending = [],
     trace = [], w_self = c, treeOps = []\<rparr>"

definition delivered :: "'v event list \<Rightarrow> 'v varBind list list" where
  "delivered evs = concat (map (\<lambda>ev. case ev of Delivered b c \<Rightarrow> [b] | _ \<Rightarrow> []) evs)"

subsection \<open>Notions and examples used to state the properties of the engine\<close>

text \<open>The state after the store \<^verbatim>\<open>_varBinds[idx] = name, value\<close> and \<^verbatim>\<open>count[0] += 1\<close>
  of the closure of round \<open>rid\<close>, and the context it passes to the next round.\<close>

definition stored :: "'v world \<Rightarrow> nat \<Rightarrow> nat \<Rightarrow> 'v varBind \<Rightarrow> nat \<Rightarrow> 'v world" where
  "stored w a i x rid =
     w\<lparr>heap := (heap w)(a := (heap w a)[i := x]),
       counts := (counts w)(rid := counts w rid + 1)\<rparr>"

definition nextContext :: "ctx \<Rightarrow> ctx" where
  "nextContext context = context\<lparr>ctx_idx := None, ctx_cbFun := Some UserCbFun\<rparr>"

text \<open>
  Trees used as examples: one whose every method raises an \<^verbatim>\<open>SmiError\<close>, one whose
  \<^verbatim>\<open>readGet\<close> raises \<^verbatim>\<open>NoSuchObjectError\<close> for the first binding, and one whose every
  method raises an exception of another class; batches of one and of two bindings.
\<close>

definition rejecting :: "nat mibTree" where
  "rejecting rid st idx = Raises (SmiError ''wrongValue'')"

definition vanishing :: "nat mibTree" where
  "vanishing rid st idx =
     (if st = STATE_READ_GET \<and> idx = 0 then Raises NoSuchObjectError
      else CompletesNow ([1, 3, 6, idx], Value 7))"

definition crashing :: "nat mibTree" where
  "crashing rid st idx = Raises (OtherException 0)"

definition oneBinding :: "nat varBind list" where
  "oneBinding = [([1, 3, 6], Value 0)]"

definition twoBindings :: "nat varBind list" where
  "twoBindings = [([1, 3, 6, 0], Value 0), ([1, 3, 6, 1], Value 0)]"

text \<open>
  What holds of the events that one synchronous call adds to the log and of its outcome:
  the rounds of the phase-method invocations lie within \<open>B\<close>; an invocation that raised
  an exception other than an \<^verbatim>\<open>SmiError\<close> makes that exception the outcome; a batch
  handed to the continuation makes the call return; and in the round of an invocation
  that raised, no binding of a greater index is dispatched.
\<close>

definition syncGood ::
  "'v mibTree \<Rightarrow> (nat \<Rightarrow> nat \<Rightarrow> bool) \<Rightarrow> 'v event list \<Rightarrow> outcome \<Rightarrow> bool" where
  "syncGood t B new out \<longleftrightarrow>
     (\<forall>r s i. Dispatch r s i \<in> set new \<longrightarrow> B r i)
     \<and> (\<forall>r s i e. Dispatch r s i \<in> set new \<longrightarrow> t r s i = Raises e \<longrightarrow> \<not> isSmiError e
          \<longrightarrow> out = Raised e)
     \<and> ((\<exists>b c. Delivered b c \<in> set new) \<longrightarrow> out = Returned)
     \<and> (\<forall>r s i e s' j. Dispatch r s i \<in> set new \<longrightarrow> t r s i = Raises e
          \<longrightarrow> Dispatch r s' j \<in> set new \<longrightarrow> j \<le> i)"

definition syncContract ::
  "'v mibTree \<Rightarrow> (ctx \<Rightarrow> 'v world \<Rightarrow> outcome \<times> 'v world) \<Rightarrow> bool" where
  "syncContract t recur \<longleftrightarrow>
     (\<forall>context w out w'. recur context w = (out, w') \<longrightarrow>
        nextRound w \<le> nextRound w'
        \<and> (\<exists>new. trace w' = trace w @ new
             \<and> syncGood t (\<lambda>r i. nextRound w \<le> r \<and> r < nextRound w') new out))"

text \<open>
  What an invocation of a phase method produces for its binding: the result binding it
  completes with or, when it raises a semantic error, the name of the binding with the
  exception; in both the value is what the closure makes of it, the marker for a
  captured semantic exception, and nothing is produced when the closure raises. A
  binding is produced for index \<open>i\<close> when it is what some invocation for \<open>i\<close>, in one of
  the first \<open>R\<close> rounds, produces.
\<close>

definition outputOf :: "'v varBind \<Rightarrow> 'v behaviour \<Rightarrow> 'v varBind option" where
  "outputOf orig bh =
    (case bh of
       Raises e \<Rightarrow>
         (case watchExc (ExcInfo e) of Inr m \<Rightarrow> Some (fst orig, m) | Inl x \<Rightarrow> None)
     | CompletesNow vb \<Rightarrow>
         (case watchExc (snd vb) of Inr v \<Rightarrow> Some (fst vb, v) | Inl x \<Rightarrow> None)
     | CompletesLater vb \<Rightarrow>
         (case watchExc (snd vb) of Inr v \<Rightarrow> Some (fst vb, v) | Inl x \<Rightarrow> None))"

definition produced :: "'v mibTree \<Rightarrow> 'v varBind list \<Rightarrow> nat \<Rightarrow> nat \<Rightarrow> 'v varBind \<Rightarrow> bool" where
  "produced t vbs R i x \<longleftrightarrow>
     (\<exists>r \<in> set [0..<R]. \<exists>s \<in> set phaseMethods. outputOf (vbs ! i) (t r s i) = Some x)"

text \<open>
  The invariant of a batch once its first round has had all its completions: the list of
  the batch keeps its length and every slot holds what was produced for its index; the
  completions outstanding are those that the tree put off, each with the index and the
  context it was dispatched with; and every batch handed to the continuation was such a
  list. A call of \<^verbatim>\<open>flipFlopFsm\<close> on a context of a later round keeps the invariant and
  never raises a semantic error.
\<close>

definition pendOK :: "'v mibTree \<Rightarrow> 'v varBind list \<Rightarrow> nat \<Rightarrow> 'v world \<Rightarrow> bool" where
  "pendOK t vbs a w \<longleftrightarrow>
     (\<forall>r vb m. (r, vb, m) \<in> set (pending w) \<longrightarrow>
        r < nextRound w \<and> ctx_varBinds m = Some a \<and> ctx_state m \<noteq> None \<and> ctx_status m \<noteq> None
        \<and> (\<exists>i s. ctx_idx m = Some i \<and> i < length vbs \<and> s \<in> set phaseMethods
              \<and> t r s i = CompletesLater vb))"

definition delivOK :: "'v mibTree \<Rightarrow> 'v varBind list \<Rightarrow> 'v world \<Rightarrow> bool" where
  "delivOK t vbs w \<longleftrightarrow>
     (\<forall>b c. Delivered b c \<in> set (trace w) \<longrightarrow>
        length b = length vbs \<and> (\<forall>i < length vbs. produced t vbs (nextRound w) i (b ! i)))"

definition allProduced :: "'v mibTree \<Rightarrow> 'v varBind list \<Rightarrow> nat \<Rightarrow> 'v world \<Rightarrow> bool" where
  "allProduced t vbs a w \<longleftrightarrow>
     length (heap w a) = length vbs
     \<and> (\<forall>i < length vbs. produced t vbs (nextRound w) i (heap w a ! i))
     \<and> pendOK t vbs a w \<and> delivOK t vbs w"

definition semantic :: "exn \<Rightarrow> bool" where
  "semantic e \<longleftrightarrow> e = NoSuchObjectError \<or> e = NoSuchInstanceError \<or> e = EndOfMibViewError"

definition laterContract ::
  "'v mibTree \<Rightarrow> 'v varBind list \<Rightarrow> nat \<Rightarrow> (ctx \<Rightarrow> 'v world \<Rightarrow> outcome \<times> 'v world) \<Rightarrow> bool"
  where
  "laterContract t vbs a recur \<longleftrightarrow>
     (\<forall>cx w out w'. recur cx w = (out, w') \<longrightarrow> allProduced t vbs a w \<longrightarrow>
        ctx_varBinds cx = Some a \<longrightarrow> ctx_state cx \<noteq> None \<longrightarrow> ctx_status cx \<noteq> None \<longrightarrow>
        allProduced t vbs a w' \<and> nextRound w \<le> nextRound w'
        \<and> (\<forall>e. out = Raised e \<longrightarrow> \<not> semantic e))"

text \<open>The last of these properties alone, with the rounds of the events between two
  bounds.\<close>

definition stopsGood :: "'v mibTree \<Rightarrow> nat \<Rightarrow> nat \<Rightarrow> 'v event list \<Rightarrow> bool" where
  "stopsGood t lo hi new \<longleftrightarrow>
     (\<forall>r s i. Dispatch r s i \<in> set new \<longrightarrow> lo \<le> r \<and> r < hi)
     \<and> (\<forall>r s i e s' j. Dispatch r s i \<in> set new \<longrightarrow> t r s i = Raises e
          \<longrightarrow> Dispatch r s' j \<in> set new \<longrightarrow> j \<le> i)"

text \<open>A tree whose \<^verbatim>\<open>readGet\<close> raises, for the second binding, an exception that is not
  an \<^verbatim>\<open>SmiError\<close>.\<close>

definition crashingGet :: "nat mibTree" where
  "crashingGet rid st idx =
     (if st = STATE_READ_GET \<and> idx = 1 then Raises (OtherException 0)
      else CompletesNow ([1, 3, 6, idx], Value 7))"

text \<open>
  Before the first round of a batch has had all its completions: only round 0 exists, and
  the completions made and outstanding are no more than the \<open>k\<close> bindings dispatched, each
  of which is outstanding or has its slot filled with what was produced for it.
\<close>

definition isPending :: "'v world \<Rightarrow> nat \<Rightarrow> bool" where
  "isPending w i \<longleftrightarrow> (\<exists>p \<in> set (pending w). ctx_idx (snd (snd p)) = Some i)"

definition firstRound :: "'v mibTree \<Rightarrow> 'v varBind list \<Rightarrow> nat \<Rightarrow> nat \<Rightarrow> 'v world \<Rightarrow> bool" where
  "firstRound t vbs a k w \<longleftrightarrow>
     length (heap w a) = length vbs \<and> nextRound w = 1
     \<and> counts w 0 + length (pending w) \<le> k
     \<and> (\<forall>i < k. isPending w i \<or> produced t vbs 1 i (heap w a ! i))
     \<and> pendOK t vbs a w \<and> delivered (trace w) = []"

definition stalled :: "'v mibTree \<Rightarrow> 'v varBind list \<Rightarrow> nat \<Rightarrow> 'v world \<Rightarrow> bool" where
  "stalled t vbs a w \<longleftrightarrow>
     length (heap w a) = length vbs \<and> nextRound w = 1
     \<and> counts w 0 + length (pending w) \<le> length vbs
     \<and> (length vbs \<le> counts w 0 + length (pending w) \<longrightarrow>
          (\<forall>i < length vbs. isPending w i \<or> produced t vbs 1 i (heap w a ! i)))
     \<and> pendOK t vbs a w \<and> delivered (trace w) = []"

text \<open>A tree that puts every completion off; its results tell the round and the index.\<close>

definition deferring :: "nat mibTree" where
  "deferring rid st idx = CompletesLater ([1, 3, 6, idx], Value (10 * rid + idx))"

text \<open>A tree whose \<^verbatim>\<open>writeCommit\<close> raises the exception \<open>e\<close>, and one whose
  \<^verbatim>\<open>writeCleanup\<close> does; every other invocation completes before it returns.\<close>

definition failingCommit :: "exn \<Rightarrow> nat mibTree" where
  "failingCommit e rid st idx =
     (if st = STATE_WRITE_COMMIT then Raises e else CompletesNow ([1, 3, 6], Value 7))"

definition failingCleanup :: "exn \<Rightarrow> nat mibTree" where
  "failingCleanup e rid st idx =
     (if st = STATE_WRITE_CLEANUP then Raises e else CompletesNow ([1, 3, 6], Value 7))"

text \<open>A tree whose \<^verbatim>\<open>readGet\<close> completes with a captured exception \<open>e\<close>.\<close>

definition capturing :: "exn \<Rightarrow> nat mibTree" where
  "capturing e rid st idx =
     (if st = STATE_READ_GET then CompletesNow ([1, 3, 6], ExcInfo e)
      else CompletesNow ([1, 3, 6], Value 7))"

text \<open>The phase methods invoked, in the order of their invocations.\<close>

definition invoked :: "'v event list \<Rightarrow> state list" where
  "invoked evs = concat (map (\<lambda>ev. case ev of Dispatch r s i \<Rightarrow> [s] | _ \<Rightarrow> []) evs)"

section \<open>Properties of the transition tables and of the indexer\<close>

lemma walk_READ_GET: "STATE_WRITE_COMMIT \<notin> set (fsmWalk fsmWriteVar STATE_READ_GET sus)"
  by (cases sus; cases "hd sus") (auto simp: newState_def fsmWriteVar_def)

lemma walk_READ_TEST: "STATE_WRITE_COMMIT \<notin> set (fsmWalk fsmWriteVar STATE_READ_TEST sus)"
proof (cases sus)
  case Nil then show ?thesis by simp
next
  case (Cons su rest)
  then show ?thesis using walk_READ_GET [of rest]
    by (cases su) (auto simp: newState_def fsmWriteVar_def)
qed

lemma walk_WRITE_CLEANUP: "STATE_WRITE_COMMIT \<notin> set (fsmWalk fsmWriteVar STATE_WRITE_CLEANUP sus)"
proof (cases sus)
  case Nil then show ?thesis by simp
next
  case (Cons su rest)
  then show ?thesis using walk_READ_TEST [of rest]
    by (cases su) (auto simp: newState_def fsmWriteVar_def)
qed

text \<open>
  The entries of the write table for the error branches. A round entered at
  \<open>WRITE_TEST\<close> with status \<open>ERROR\<close> moves to \<open>WRITE_CLEANUP\<close>, and whatever the statuses
  of the rounds after it, the table never leads to \<open>WRITE_COMMIT\<close>; \<open>WRITE_COMMIT\<close> with
  \<open>ERROR\<close> moves to \<open>WRITE_UNDO\<close>; \<open>WRITE_UNDO\<close> with \<open>OK\<close> moves to \<open>READ_TEST\<close>;
  and \<open>ERROR\<close> at \<open>READ_TEST\<close> or \<open>READ_GET\<close> moves to \<open>STOP\<close>.
\<close>

lemma fsmWriteVar_error_entries:
  "newState fsmWriteVar STATE_WRITE_TEST STATUS_ERROR = Inr STATE_WRITE_CLEANUP
   \<and> STATE_WRITE_COMMIT \<notin> set (fsmWalk fsmWriteVar STATE_WRITE_TEST (STATUS_ERROR # sus))
   \<and> newState fsmWriteVar STATE_WRITE_COMMIT STATUS_ERROR = Inr STATE_WRITE_UNDO
   \<and> newState fsmWriteVar STATE_WRITE_UNDO STATUS_OK = Inr STATE_READ_TEST
   \<and> newState fsmWriteVar STATE_READ_TEST STATUS_ERROR = Inr STATE_STOP
   \<and> newState fsmWriteVar STATE_READ_GET STATUS_ERROR = Inr STATE_STOP"
proof -
  have a: "newState fsmWriteVar STATE_WRITE_TEST STATUS_ERROR = Inr STATE_WRITE_CLEANUP"
    by (simp add: newState_def fsmWriteVar_def)
  have b: "STATE_WRITE_COMMIT \<notin> set (fsmWalk fsmWriteVar STATE_WRITE_TEST (STATUS_ERROR # sus))"
    using walk_WRITE_CLEANUP [of sus] by (simp add: a)
  have c: "newState fsmWriteVar STATE_WRITE_COMMIT STATUS_ERROR = Inr STATE_WRITE_UNDO"
    by (simp add: newState_def fsmWriteVar_def)
  have d: "newState fsmWriteVar STATE_WRITE_UNDO STATUS_OK = Inr STATE_READ_TEST"
    by (simp add: newState_def fsmWriteVar_def)
  have e: "newState fsmWriteVar STATE_READ_TEST STATUS_ERROR = Inr STATE_STOP"
    by (simp add: newState_def fsmWriteVar_def)
  have f: "newState fsmWriteVar STATE_READ_GET STATUS_ERROR = Inr STATE_STOP"
    by (simp add: newState_def fsmWriteVar_def)
  from a b c d e f show ?thesis by blast
qed



lemma attachInstances_exn:
  "fst (attachInstances b insts bd) = Some e \<Longrightarrow> e = SmiError ''Orphan MIB scalar instance''"
  by (induction b insts bd rule: attachInstances.induct) (auto split: option.splits)

lemma attachColumns_exn:
  "fst (attachColumns b colz bd) = Some e \<Longrightarrow> e = SmiError ''Orphan MIB table column''"
  by (induction b colz bd rule: attachColumns.induct) (auto split: option.splits simp: Let_def)

lemma attachInstances_orphan:
  "inst \<in> set insts \<Longrightarrow> map_of (scalars b) (typeName inst) = None \<Longrightarrow>
   map_of (cols b) (typeName inst) = None \<Longrightarrow> fst (attachInstances b insts bd) \<noteq> None"
  by (induction b insts bd rule: attachInstances.induct) (auto split: option.splits)

lemma attachColumns_orphan:
  "col \<in> set colz \<Longrightarrow> map_of (rows b) (butlast (name col)) = None \<Longrightarrow>
   fst (attachColumns b colz bd) \<noteq> None"
  by (induction b colz bd rule: attachColumns.induct) (auto split: option.splits simp: Let_def)

text \<open>
  C6. When the build identifiers differ and the collected objects hold an orphan (a scalar
  instance whose \<open>typeName\<close> is neither a known scalar nor a known column, or a column
  whose name without its last component is not a known row), \<^verbatim>\<open>__indexMib\<close> raises
  \<^verbatim>\<open>SmiError\<close> and the controller, with its \<open>lastBuildSyms\<close> and \<open>lastBuildId\<close>,
  is left as it was.
\<close>

theorem orphan_aborts_rebuild:
  assumes stale: "lastBuildId self \<noteq> mb_lastBuildId (mibBuilder self)"
    and b: "b = collect (mibSymbols (mibBuilder self))"
    and orphan:
      "(\<exists>inst \<in> set (map snd (instances b)).
          map_of (scalars b) (typeName inst) = None \<and> map_of (cols b) (typeName inst) = None)
       \<or> (\<exists>col \<in> set (map snd (cols b)). map_of (rows b) (butlast (name col)) = None)"
  shows "\<exists>msg ops'. indexMib self ops = (Some (SmiError msg), self, ops')"
proof -
  define ops1 where "ops1 = ops @ map (detach b) (lastBuildSyms self)"
  obtain r1 syms2 ops2 where a1:
    "attachInstances b (map snd (instances b)) ([], ops1) = (r1, (syms2, ops2))"
    by (metis prod.exhaust)
  show ?thesis
  proof (cases r1)
    case (Some e)
    with a1 have "e = SmiError ''Orphan MIB scalar instance''"
      using attachInstances_exn [of b "map snd (instances b)" "([], ops1)" e] by simp
    with a1 Some stale show ?thesis
      by (simp add: indexMib_def Let_def b [symmetric] ops1_def [symmetric])
  next
    case None
    with a1 have "fst (attachInstances b (map snd (instances b)) ([], ops1)) = None" by simp
    with orphan obtain col where col: "col \<in> set (map snd (cols b))"
      "map_of (rows b) (butlast (name col)) = None"
      using attachInstances_orphan [of _ "map snd (instances b)" b "([], ops1)"] by blast
    obtain r2 syms3 ops3 where a2:
      "attachColumns b (map snd (cols b)) (syms2, ops2) = (r2, (syms3, ops3))"
      by (metis prod.exhaust)
    from col have "r2 \<noteq> None"
      using attachColumns_orphan [of col "map snd (cols b)" b "(syms2, ops2)"] a2 by simp
    then obtain e where e: "r2 = Some e" by blast
    with a2 have "e = SmiError ''Orphan MIB table column''"
      using attachColumns_exn [of b "map snd (cols b)" "(syms2, ops2)" e] by simp
    with a1 a2 None e stale show ?thesis
      by (simp add: indexMib_def Let_def b [symmetric] ops1_def [symmetric])
  qed
qed






lemma matching_allObjs_empty:
  "(\<And>m' syms'. (m', syms') \<in> set ms \<Longrightarrow> matching v x (map snd syms') = []) \<Longrightarrow>
   matching v x (allObjs ms) = []"
  by (induction ms) (auto simp: allObjs_def matching_def)






lemma AAA_ZZZ: "(''AAA''::string) \<le> ''ZZZ''"
  by (simp add: less_eq_char_def)


lemma collect_orphan:
  "collect (mibSymbols (mibBuilder orphanController)) =
    noBuckets\<lparr>instances := [([1, 3, 1, 0],
       \<lparr>variant = MibScalarInstance, name = [1, 3, 1, 0], typeName = [1, 3, 1], ident = 0\<rparr>)]\<rparr>"
  by (simp add: orphanController_def collect_def sortedModules_def classify_def noBuckets_def)










lemma collect_twoModules: "collect twoModules = noBuckets\<lparr>scalars := [([1, 3, 6, 1], objA)]\<rparr>"
  using AAA_ZZZ
  by (simp add: collect_def sortedModules_def twoModules_def classify_def objA_def objZ_def
      noBuckets_def)

lemma indexMib_fresh:
  "indexMib freshController [] =
     (None, freshController\<lparr>lastBuildSyms := [([1, 3, 6, 1], [1])], lastBuildId := 1\<rparr>,
      [registerSubtrees Root objA])"
  by (simp add: indexMib_def freshController_def collect_twoModules Let_def)
     (simp add: noBuckets_def attachRoot_def objA_def)


text \<open>C6, at a controller whose only object is a scalar instance without its scalar.\<close>

theorem orphan_aborts_rebuild_witness:
  "lastBuildId orphanController \<noteq> mb_lastBuildId (mibBuilder orphanController)
   \<and> (\<exists>inst \<in> set (map snd (instances (collect (mibSymbols (mibBuilder orphanController))))).
        map_of (scalars (collect (mibSymbols (mibBuilder orphanController)))) (typeName inst) = None
        \<and> map_of (cols (collect (mibSymbols (mibBuilder orphanController)))) (typeName inst) = None)
   \<and> (\<exists>msg ops'. indexMib orphanController [] = (Some (SmiError msg), orphanController, ops'))"
  using orphan_aborts_rebuild [of orphanController
      "collect (mibSymbols (mibBuilder orphanController))" "[]"]
  by (simp add: collect_orphan) (simp add: orphanController_def noBuckets_def)

section \<open>Properties of the dispatch engine\<close>

lemma watchExc_eq:
  "watchExc v =
    (case v of
       ExcInfo e \<Rightarrow>
         (if e = NoSuchObjectError then Inr noSuchObject
          else if e = NoSuchInstanceError then Inl (AttributeError ''noSuchOInstance'')
          else if e = EndOfMibViewError then Inr endOfMibView
          else Inl TypeError)
     | _ \<Rightarrow> Inr v)"
  by (simp add: watchExc_def rfc1905_def split: val.splits)

lemmas engine_defs = flipFlopFsmRound_def enter_def stop_def cbFun'_def watchExc_eq
  newState_def topContext_def initWorld_def phaseMethods_def Let_def enumerate_eq_zip

text \<open>
  C1. A batch driven by \<^verbatim>\<open>writeVars\<close> does not follow the error branches of the write
  table. After a phase method has raised, the closure is called with the context the
  round was entered with and the status \<open>STATUS_ERROR\<close>: the state in it is that of the
  round before, and in the first round it has no key \<^verbatim>\<open>varBinds\<close>. With a \<^verbatim>\<open>writeTest\<close>
  that raises an \<^verbatim>\<open>SmiError\<close>, \<^verbatim>\<open>writeVars\<close> raises \<^verbatim>\<open>KeyError\<close> after that one
  invocation: \<^verbatim>\<open>writeCleanup\<close> is never invoked. With a \<^verbatim>\<open>writeCommit\<close> that raises an
  \<^verbatim>\<open>SmiError\<close>, \<^verbatim>\<open>writeVars\<close> raises \<^verbatim>\<open>TypeError\<close>; when it raises
  \<^verbatim>\<open>NoSuchObjectError\<close>, the batch moves to \<open>WRITE_CLEANUP\<close> and then to \<open>STOP\<close>. In both
  \<^verbatim>\<open>writeUndo\<close> is never invoked, although the table maps \<open>WRITE_COMMIT\<close> with \<open>ERROR\<close>
  to \<open>WRITE_UNDO\<close>. With a \<^verbatim>\<open>writeCleanup\<close> that raises \<^verbatim>\<open>NoSuchObjectError\<close>,
  \<^verbatim>\<open>writeUndo\<close> is invoked after a commit that succeeded.
\<close>

theorem write_error_branches_missed:
  "fst (writeVars 9 rejecting oneBinding topContext (initWorld freshController))
      = Raised (KeyError ''varBinds'')
   \<and> invoked (trace (snd (writeVars 9 rejecting oneBinding topContext
        (initWorld freshController)))) = [STATE_WRITE_TEST]
   \<and> newState fsmWriteVar STATE_WRITE_TEST STATUS_ERROR = Inr STATE_WRITE_CLEANUP
   \<and> fst (writeVars 9 (failingCommit (SmiError ''commitFailed'')) oneBinding topContext
        (initWorld freshController)) = Raised TypeError
   \<and> invoked (trace (snd (writeVars 9 (failingCommit (SmiError ''commitFailed'')) oneBinding
        topContext (initWorld freshController)))) = [STATE_WRITE_TEST, STATE_WRITE_COMMIT]
   \<and> fst (writeVars 9 (failingCommit NoSuchObjectError) oneBinding topContext
        (initWorld freshController)) = Returned
   \<and> invoked (trace (snd (writeVars 9 (failingCommit NoSuchObjectError) oneBinding topContext
        (initWorld freshController))))
      = [STATE_WRITE_TEST, STATE_WRITE_COMMIT, STATE_WRITE_CLEANUP]
   \<and> newState fsmWriteVar STATE_WRITE_COMMIT STATUS_ERROR = Inr STATE_WRITE_UNDO
   \<and> fst (writeVars 9 (failingCleanup NoSuchObjectError) oneBinding topContext
        (initWorld freshController)) = Returned
   \<and> invoked (trace (snd (writeVars 9 (failingCleanup NoSuchObjectError) oneBinding topContext
        (initWorld freshController))))
      = [STATE_WRITE_TEST, STATE_WRITE_COMMIT, STATE_WRITE_CLEANUP, STATE_WRITE_UNDO]"
proof -
  have a: "fst (writeVars 9 rejecting oneBinding topContext (initWorld freshController))
      = Raised (KeyError ''varBinds'')"
    "invoked (trace (snd (writeVars 9 rejecting oneBinding topContext
        (initWorld freshController)))) = [STATE_WRITE_TEST]"
    by (simp_all add: writeVars_def eval_nat_numeral engine_defs fsmWriteVar_def indexMib_fresh
        rejecting_def oneBinding_def invoked_def)
  have b: "fst (writeVars 9 (failingCommit (SmiError ''commitFailed'')) oneBinding topContext
        (initWorld freshController)) = Raised TypeError"
     "invoked (trace (snd (writeVars 9 (failingCommit (SmiError ''commitFailed'')) oneBinding
        topContext (initWorld freshController)))) = [STATE_WRITE_TEST, STATE_WRITE_COMMIT]"
    by (simp_all add: writeVars_def eval_nat_numeral engine_defs fsmWriteVar_def indexMib_fresh
        failingCommit_def oneBinding_def invoked_def)
  have c: "fst (writeVars 9 (failingCommit NoSuchObjectError) oneBinding topContext
        (initWorld freshController)) = Returned"
     "invoked (trace (snd (writeVars 9 (failingCommit NoSuchObjectError) oneBinding topContext
        (initWorld freshController))))
      = [STATE_WRITE_TEST, STATE_WRITE_COMMIT, STATE_WRITE_CLEANUP]"
    by (simp_all add: writeVars_def eval_nat_numeral engine_defs fsmWriteVar_def indexMib_fresh
        failingCommit_def oneBinding_def invoked_def)
  have d: "fst (writeVars 9 (failingCleanup NoSuchObjectError) oneBinding topContext
        (initWorld freshController)) = Returned"
     "invoked (trace (snd (writeVars 9 (failingCleanup NoSuchObjectError) oneBinding topContext
        (initWorld freshController))))
      = [STATE_WRITE_TEST, STATE_WRITE_COMMIT, STATE_WRITE_CLEANUP, STATE_WRITE_UNDO]"
    by (simp_all add: writeVars_def eval_nat_numeral engine_defs fsmWriteVar_def indexMib_fresh
        failingCleanup_def oneBinding_def invoked_def)
  have e: "newState fsmWriteVar STATE_WRITE_TEST STATUS_ERROR = Inr STATE_WRITE_CLEANUP"
    "newState fsmWriteVar STATE_WRITE_COMMIT STATUS_ERROR = Inr STATE_WRITE_UNDO"
    using fsmWriteVar_error_entries [of "[]"] by blast+
  from a b c d e show ?thesis by blast
qed

text \<open>
  C9. With no bindings and a continuation, each entry point raises \<^verbatim>\<open>KeyError\<close>: the
  closure is called with the context of the first round, which has no key \<^verbatim>\<open>varBinds\<close>.
  Nothing is handed to the continuation and no completion is outstanding.
\<close>

theorem empty_batch_raises:
  "fst (readVars 5 t [] topContext (initWorld freshController)) = Raised (KeyError ''varBinds'')
   \<and> fst (readNextVars 5 t [] topContext (initWorld freshController))
        = Raised (KeyError ''varBinds'')
   \<and> fst (writeVars 5 t [] topContext (initWorld freshController))
        = Raised (KeyError ''varBinds'')
   \<and> trace (snd (readVars 5 t [] topContext (initWorld freshController))) = []
   \<and> trace (snd (readNextVars 5 t [] topContext (initWorld freshController))) = []
   \<and> trace (snd (writeVars 5 t [] topContext (initWorld freshController))) = []
   \<and> pending (snd (readVars 5 t [] topContext (initWorld freshController))) = []
   \<and> pending (snd (readNextVars 5 t [] topContext (initWorld freshController))) = []
   \<and> pending (snd (writeVars 5 t [] topContext (initWorld freshController))) = []"
  by (simp add: readVars_def readNextVars_def writeVars_def eval_nat_numeral engine_defs
      fsmReadVar_def fsmReadNextVar_def fsmWriteVar_def indexMib_fresh)

text \<open>
  C3. The continuation is skipped when a phase method raises an \<^verbatim>\<open>SmiError\<close>. With one
  binding whose \<^verbatim>\<open>readTest\<close> raises, \<^verbatim>\<open>readVars\<close> raises \<^verbatim>\<open>KeyError\<close>. With two
  bindings, of which the first raises \<^verbatim>\<open>NoSuchObjectError\<close> in \<^verbatim>\<open>readGet\<close>, \<^verbatim>\<open>readVars\<close>
  returns after that one invocation. In both runs nothing is handed to the continuation
  and no completion is outstanding.
\<close>

theorem continuation_skipped:
  "fst (readVars 5 rejecting oneBinding topContext (initWorld freshController))
      = Raised (KeyError ''varBinds'')
   \<and> trace (snd (readVars 5 rejecting oneBinding topContext (initWorld freshController)))
      = [Dispatch 0 STATE_READ_TEST 0]
   \<and> pending (snd (readVars 5 rejecting oneBinding topContext (initWorld freshController))) = []
   \<and> fst (readVars 5 vanishing twoBindings topContext (initWorld freshController)) = Returned
   \<and> trace (snd (readVars 5 vanishing twoBindings topContext (initWorld freshController)))
      = [Dispatch 0 STATE_READ_TEST 0, Dispatch 0 STATE_READ_TEST 1, Dispatch 1 STATE_READ_GET 0]
   \<and> pending (snd (readVars 5 vanishing twoBindings topContext (initWorld freshController))) = []"
  by (simp add: readVars_def eval_nat_numeral engine_defs fsmReadVar_def indexMib_fresh
      rejecting_def vanishing_def oneBinding_def twoBindings_def)

text \<open>
  C4 as stated fails: an exception that is not an \<^verbatim>\<open>SmiError\<close> is not converted. The
  call raises it, binding 0 is not replaced and no further round is entered.
\<close>

theorem other_exception_not_converted_counterexample:
  "fst (readVars 5 crashing twoBindings topContext (initWorld freshController))
      = Raised (OtherException 0)
   \<and> heap (snd (readVars 5 crashing twoBindings topContext (initWorld freshController))) 0
      = twoBindings
   \<and> nextRound (snd (readVars 5 crashing twoBindings topContext (initWorld freshController))) = 1
   \<and> trace (snd (readVars 5 crashing twoBindings topContext (initWorld freshController)))
      = [Dispatch 0 STATE_READ_TEST 0]"
  by (simp add: readVars_def eval_nat_numeral engine_defs fsmReadVar_def indexMib_fresh
      crashing_def twoBindings_def)

text \<open>
  C5. A completion that carries a captured \<^verbatim>\<open>NoSuchInstanceError\<close> does not get its
  marker: the closure reads the attribute \<^verbatim>\<open>noSuchOInstance\<close>, which the module of the
  markers does not have, and raises \<^verbatim>\<open>AttributeError\<close> before anything is stored. A
  \<^verbatim>\<open>readVars\<close> of one binding whose \<^verbatim>\<open>readGet\<close> completes with that exception raises it
  and hands nothing to the continuation. For the two sibling exceptions the marker is
  stored in the slot and the batch is handed over.
\<close>

theorem no_such_instance_marker_missed:
  "cbFun' recur varBinds rid (Some (nm, ExcInfo NoSuchInstanceError))
      (context\<lparr>ctx_varBinds := Some a\<rparr>) w
     = (Raised (AttributeError ''noSuchOInstance''), w)
   \<and> fst (readVars 5 (capturing NoSuchInstanceError) oneBinding topContext
        (initWorld freshController)) = Raised (AttributeError ''noSuchOInstance'')
   \<and> heap (snd (readVars 5 (capturing NoSuchInstanceError) oneBinding topContext
        (initWorld freshController))) 0 = [([1, 3, 6], Value 7)]
   \<and> delivered (trace (snd (readVars 5 (capturing NoSuchInstanceError) oneBinding topContext
        (initWorld freshController)))) = []
   \<and> fst (readVars 5 (capturing NoSuchObjectError) oneBinding topContext
        (initWorld freshController)) = Returned
   \<and> delivered (trace (snd (readVars 5 (capturing NoSuchObjectError) oneBinding topContext
        (initWorld freshController)))) = [[([1, 3, 6], noSuchObject)]]
   \<and> fst (readVars 5 (capturing EndOfMibViewError) oneBinding topContext
        (initWorld freshController)) = Returned
   \<and> delivered (trace (snd (readVars 5 (capturing EndOfMibViewError) oneBinding topContext
        (initWorld freshController)))) = [[([1, 3, 6], endOfMibView)]]"
proof -
  have a: "cbFun' recur varBinds rid (Some (nm, ExcInfo NoSuchInstanceError))
      (context\<lparr>ctx_varBinds := Some a\<rparr>) w
     = (Raised (AttributeError ''noSuchOInstance''), w)"
    by (simp add: cbFun'_def watchExc_eq)
  have b: "fst (readVars 5 (capturing NoSuchInstanceError) oneBinding topContext
        (initWorld freshController)) = Raised (AttributeError ''noSuchOInstance'')"
    "heap (snd (readVars 5 (capturing NoSuchInstanceError) oneBinding topContext
        (initWorld freshController))) 0 = [([1, 3, 6], Value 7)]"
    "delivered (trace (snd (readVars 5 (capturing NoSuchInstanceError) oneBinding topContext
        (initWorld freshController)))) = []"
    by (simp_all add: readVars_def eval_nat_numeral engine_defs fsmReadVar_def indexMib_fresh
        capturing_def oneBinding_def delivered_def)
  have c: "fst (readVars 5 (capturing NoSuchObjectError) oneBinding topContext
        (initWorld freshController)) = Returned"
    "delivered (trace (snd (readVars 5 (capturing NoSuchObjectError) oneBinding topContext
        (initWorld freshController)))) = [[([1, 3, 6], noSuchObject)]]"
    by (simp_all add: readVars_def eval_nat_numeral engine_defs fsmReadVar_def indexMib_fresh
        capturing_def oneBinding_def delivered_def)
  have d: "fst (readVars 5 (capturing EndOfMibViewError) oneBinding topContext
        (initWorld freshController)) = Returned"
    "delivered (trace (snd (readVars 5 (capturing EndOfMibViewError) oneBinding topContext
        (initWorld freshController)))) = [[([1, 3, 6], endOfMibView)]]"
    by (simp_all add: readVars_def eval_nat_numeral engine_defs fsmReadVar_def indexMib_fresh
        capturing_def oneBinding_def delivered_def)
  from a b c d show ?thesis by simp
qed

lemma cbFun'_cases [consumes 1, case_names raise store recur]:
  assumes "cbFun' recur vbs rid vb context w = (out, w')"
  obtains
    (raise) e where "out = Raised e" "\<not> isSmiError e" "w' = w"
  | (store) a i nm v v' where
      "ctx_varBinds context = Some a" "ctx_idx context = Some i" "i < length (heap w a)"
      "vb = Some (nm, v)" "watchExc v = Inr v'"
      "counts w rid + 1 < length vbs" "out = Returned" "w' = stored w a i (nm, v') rid"
  | (recur) a i nm v v' where
      "ctx_varBinds context = Some a" "ctx_idx context = Some i" "i < length (heap w a)"
      "vb = Some (nm, v)" "watchExc v = Inr v'"
      "\<not> counts w rid + 1 < length vbs"
      "recur (nextContext context) (stored w a i (nm, v') rid) = (out, w')"
proof (cases "ctx_varBinds context")
  case None
  with assms have "out = Raised (KeyError ''varBinds'')" "w' = w"
    by (simp_all add: cbFun'_def Let_def)
  then show ?thesis using raise by simp
next
  case a: (Some a)
  show ?thesis
  proof (cases vb)
    case None
    with assms a have "out = Raised TypeError" "w' = w"
      by (simp_all add: cbFun'_def Let_def)
    then show ?thesis using raise by simp
  next
    case (Some p)
    obtain nm v where p: "p = (nm, v)" by (cases p)
    show ?thesis
    proof (cases "watchExc v")
      case (Inl e)
      then have "\<not> isSmiError e" by (auto simp: watchExc_eq split: val.splits if_splits)
      moreover from assms a Some p Inl have "out = Raised e" "w' = w"
        by (simp_all add: cbFun'_def Let_def)
      ultimately show ?thesis using raise by simp
    next
      case (Inr v')
      show ?thesis
      proof (cases "ctx_idx context")
        case None
        with assms a Some p Inr have "out = Raised TypeError" "w' = w"
          by (simp_all add: cbFun'_def Let_def)
        then show ?thesis using raise by simp
      next
        case i: (Some i)
        show ?thesis
        proof (cases "i < length (heap w a)")
          case False
          with assms a Some p Inr i have "out = Raised IndexError" "w' = w"
            by (simp_all add: cbFun'_def Let_def)
          then show ?thesis using raise by simp
        next
          case True
          show ?thesis
          proof (cases "counts w rid + 1 < length vbs")
            case lt: True
            with assms a Some p Inr i True have "out = Returned" "w' = stored w a i (nm, v') rid"
              by (simp_all add: cbFun'_def Let_def stored_def)
            then show ?thesis using store [OF a i True _ Inr lt] Some p by simp
          next
            case ge: False
            with assms a Some p Inr i True
            have "recur (nextContext context) (stored w a i (nm, v') rid) = (out, w')"
              by (simp add: cbFun'_def Let_def stored_def nextContext_def)
            then show ?thesis using recur [OF a i True _ Inr ge] Some p by simp
          qed
        qed
      qed
    qed
  qed
qed

lemma stored_simps [simp]:
  "nextRound (stored w a i x rid) = nextRound w"
  "trace (stored w a i x rid) = trace w"
  "pending (stored w a i x rid) = pending w"
  "counts (stored w a i x rid) = (counts w)(rid := counts w rid + 1)"
  "heap (stored w a i x rid) = (heap w)(a := (heap w a)[i := x])"
  "nextAddr (stored w a i x rid) = nextAddr w"
  by (simp_all add: stored_def)

lemma syncGood_Nil: "syncGood t B [] out"
  by (simp add: syncGood_def)

lemma syncGood_weaken: "syncGood t B new out \<Longrightarrow> (\<And>r i. B r i \<Longrightarrow> B' r i) \<Longrightarrow> syncGood t B' new out"
  unfolding syncGood_def by blast

lemma syncGood_quiet:
  "syncGood t B new out \<Longrightarrow> out = Raised e \<Longrightarrow> isSmiError e \<Longrightarrow> syncGood t B new out'"
  by (auto simp: syncGood_def)

lemma syncGood_append:
  assumes "syncGood t B1 new1 out1" and "out1 = Raised e" and "isSmiError e"
    and "syncGood t B2 new2 out"
    and "\<And>r i r' i'. B1 r i \<Longrightarrow> B2 r' i' \<Longrightarrow> r \<noteq> r'"
  shows "syncGood t (\<lambda>r i. B1 r i \<or> B2 r i) (new1 @ new2) out"
proof -
  from assms(1-3) have q: "syncGood t B1 new1 out" by (rule syncGood_quiet)
  show ?thesis
    unfolding syncGood_def
  proof (intro conjI allI impI)
    fix r s i assume "Dispatch r s i \<in> set (new1 @ new2)"
    then show "B1 r i \<or> B2 r i" using q assms(4) unfolding syncGood_def by auto
  next
    fix r s i e' assume "Dispatch r s i \<in> set (new1 @ new2)" "t r s i = Raises e'" "\<not> isSmiError e'"
    then show "out = Raised e'" using q assms(4) unfolding syncGood_def by auto
  next
    assume "\<exists>b c. Delivered b c \<in> set (new1 @ new2)"
    then show "out = Returned" using q assms(4) unfolding syncGood_def by auto
  next
    fix r s i e' s' j
    assume a: "Dispatch r s i \<in> set (new1 @ new2)" "t r s i = Raises e'"
      "Dispatch r s' j \<in> set (new1 @ new2)"
    from a(1) have "Dispatch r s i \<in> set new1 \<or> Dispatch r s i \<in> set new2" by simp
    moreover from a(3) have "Dispatch r s' j \<in> set new1 \<or> Dispatch r s' j \<in> set new2" by simp
    ultimately consider
      "Dispatch r s i \<in> set new1" "Dispatch r s' j \<in> set new1"
      | "Dispatch r s i \<in> set new2" "Dispatch r s' j \<in> set new2"
      | "Dispatch r s i \<in> set new1" "Dispatch r s' j \<in> set new2"
      | "Dispatch r s i \<in> set new2" "Dispatch r s' j \<in> set new1"
      by blast
    then show "j \<le> i"
    proof cases
      case 1 then show ?thesis using q a(2) unfolding syncGood_def by blast
    next
      case 2 then show ?thesis using assms(4) a(2) unfolding syncGood_def by blast
    next
      case 3
      from 3(1) q have "B1 r i" unfolding syncGood_def by blast
      moreover from 3(2) assms(4) have "B2 r j" unfolding syncGood_def by blast
      ultimately show ?thesis using assms(5) by blast
    next
      case 4
      from 4(1) assms(4) have "B2 r i" unfolding syncGood_def by blast
      moreover from 4(2) q have "B1 r j" unfolding syncGood_def by blast
      ultimately show ?thesis using assms(5) by blast
    qed
  qed
qed

lemma syncGood_Cons:
  assumes "syncGood t B2 new out"
    and "\<And>e. t rid st k = Raises e \<Longrightarrow> isSmiError e \<or> out = Raised e"
    and "\<And>r i. B2 r i \<Longrightarrow> r = rid \<Longrightarrow> k \<le> i \<and> (\<forall>e. t rid st k \<noteq> Raises e)"
    and "\<And>r i. B2 r i \<Longrightarrow> B r i" and "B rid k"
  shows "syncGood t B (Dispatch rid st k # new) out"
  unfolding syncGood_def
proof (intro conjI allI impI)
  fix r s i assume "Dispatch r s i \<in> set (Dispatch rid st k # new)"
  then show "B r i" using assms(1,4,5) unfolding syncGood_def by auto
next
  fix r s i e assume "Dispatch r s i \<in> set (Dispatch rid st k # new)" "t r s i = Raises e"
    "\<not> isSmiError e"
  then show "out = Raised e" using assms(1,2) unfolding syncGood_def by auto
next
  assume "\<exists>b c. Delivered b c \<in> set (Dispatch rid st k # new)"
  then show "out = Returned" using assms(1) unfolding syncGood_def by auto
next
  fix r s i e s' j
  assume a: "Dispatch r s i \<in> set (Dispatch rid st k # new)" "t r s i = Raises e"
    "Dispatch r s' j \<in> set (Dispatch rid st k # new)"
  from a(1) have "(r = rid \<and> s = st \<and> i = k) \<or> Dispatch r s i \<in> set new" by auto
  moreover from a(3) have "(r = rid \<and> s' = st \<and> j = k) \<or> Dispatch r s' j \<in> set new" by auto
  ultimately consider
    "r = rid" "s = st" "i = k" "j = k"
    | "r = rid" "s = st" "i = k" "Dispatch r s' j \<in> set new"
    | "Dispatch r s i \<in> set new" "r = rid" "j = k"
    | "Dispatch r s i \<in> set new" "Dispatch r s' j \<in> set new"
    by blast
  then show "j \<le> i"
  proof cases
    case 1 then show ?thesis by simp
  next
    case 2
    then have "B2 rid j" using assms(1) unfolding syncGood_def by blast
    with assms(3) [of rid j] a(2) 2 show ?thesis by auto
  next
    case 3
    then have "B2 rid i" using assms(1) unfolding syncGood_def by blast
    with assms(3) [of rid i] 3 show ?thesis by auto
  next
    case 4 then show ?thesis using assms(1) a(2) unfolding syncGood_def by blast
  qed
qed

lemma cbFun'_sync:
  assumes C: "syncContract t recur" and run: "cbFun' recur vbs rid vb context w = (out, w')"
  shows "nextRound w \<le> nextRound w'
     \<and> (\<exists>new. trace w' = trace w @ new
          \<and> syncGood t (\<lambda>r i. nextRound w \<le> r \<and> r < nextRound w') new out)"
  using run
proof (cases rule: cbFun'_cases)
  case (raise e)
  then show ?thesis by (simp add: syncGood_Nil)
next
  case (store a i nm v v')
  then show ?thesis by (simp add: syncGood_Nil)
next
  case (recur a i nm v v')
  with C show ?thesis unfolding syncContract_def by fastforce
qed

lemma call_sync:
  assumes C: "syncContract t recur"
    and r: "(case t rid st k of
               Raises e \<Rightarrow> (Raised e, w1)
             | CompletesNow vb \<Rightarrow> cbFun' recur vbs rid (Some vb) mctx w1
             | CompletesLater vb \<Rightarrow> (Returned, w1\<lparr>pending := pending w1 @ [(rid, vb, mctx)]\<rparr>))
            = (o1, w2)"
    and cnt: "counts w1 rid \<le> k" and k: "k < length vbs"
  shows "nextRound w1 \<le> nextRound w2
     \<and> (\<exists>new1. trace w2 = trace w1 @ new1
          \<and> syncGood t (\<lambda>r i. nextRound w1 \<le> r \<and> r < nextRound w2) new1 o1
          \<and> (o1 = Returned \<longrightarrow> (counts w2 rid \<le> Suc k \<and> new1 = []) \<or> Suc k = length vbs))
     \<and> (\<forall>e. t rid st k = Raises e \<longrightarrow> o1 = Raised e)"
proof (cases "t rid st k")
  case (Raises e)
  with r show ?thesis by (auto simp: syncGood_Nil)
next
  case (CompletesLater vb)
  with r cnt show ?thesis by (auto simp: syncGood_Nil)
next
  case (CompletesNow vb)
  with r have run: "cbFun' recur vbs rid (Some vb) mctx w1 = (o1, w2)" by simp
  from run show ?thesis
  proof (cases rule: cbFun'_cases)
    case (raise e)
    then show ?thesis using CompletesNow by (simp add: syncGood_Nil)
  next
    case (store a i nm v v')
    then show ?thesis using CompletesNow cnt by (simp add: syncGood_Nil)
  next
    case (recur a i nm v v')
    from recur(6) cnt k have last: "Suc k = length vbs" by simp
    from cbFun'_sync [OF C run] last CompletesNow show ?thesis by auto
  qed
qed

lemma dispatch_sync:
  assumes C: "syncContract t recur"
  shows "dispatch recur t vbs rid st su a context (enumerate k rest) w = (out, w') \<Longrightarrow>
     k + length rest = length vbs \<Longrightarrow> counts w rid \<le> k \<Longrightarrow> rid < nextRound w \<Longrightarrow>
     nextRound w \<le> nextRound w'
     \<and> (\<exists>new. trace w' = trace w @ new
          \<and> syncGood t (\<lambda>r i. (r = rid \<and> k \<le> i) \<or> (nextRound w \<le> r \<and> r < nextRound w'))
               new out)"
proof (induction rest arbitrary: k w)
  case Nil
  then show ?case by (simp add: syncGood_Nil)
next
  case (Cons vb rest)
  let ?B = "\<lambda>r i. (r = rid \<and> k \<le> i) \<or> (nextRound w \<le> r \<and> r < nextRound w')"
  show ?case
  proof (cases "ctx_idx context")
    case (Some x)
    with Cons.prems(1) show ?thesis by (simp add: enumerate_simps syncGood_Nil)
  next
    case None
    define w1 where "w1 = w\<lparr>trace := trace w @ [Dispatch rid st k]\<rparr>"
    define mctx where "mctx = context\<lparr>ctx_cbFun := Some (RoundCbFun rid), ctx_idx := Some k,
                          ctx_state := Some st, ctx_status := Some su,
                          ctx_varBinds := Some a, ctx_oName := True\<rparr>"
    obtain o1 w2 where r:
      "(case t rid st k of
               Raises e \<Rightarrow> (Raised e, w1)
             | CompletesNow vb \<Rightarrow> cbFun' recur vbs rid (Some vb) mctx w1
             | CompletesLater vb \<Rightarrow> (Returned, w1\<lparr>pending := pending w1 @ [(rid, vb, mctx)]\<rparr>))
            = (o1, w2)"
      by (meson prod.exhaust)
    have w1: "nextRound w1 = nextRound w" "counts w1 = counts w"
      "trace w1 = trace w @ [Dispatch rid st k]"
      by (simp_all add: w1_def)
    from Cons.prems(2) have k: "k < length vbs" by simp
    from call_sync [OF C r _ k] Cons.prems(3) w1 obtain new1 where
      mono1: "nextRound w \<le> nextRound w2"
      and tr1: "trace w2 = trace w @ Dispatch rid st k # new1"
      and g1: "syncGood t (\<lambda>r i. nextRound w \<le> r \<and> r < nextRound w2) new1 o1"
      and cnt1: "o1 = Returned \<Longrightarrow> (counts w2 rid \<le> Suc k \<and> new1 = []) \<or> Suc k = length vbs"
      and raised: "\<And>e. t rid st k = Raises e \<Longrightarrow> o1 = Raised e"
      by auto
    have step: "(case (o1, w2) of
            (Returned, w2) \<Rightarrow> dispatch recur t vbs rid st su a context (enumerate (Suc k) rest) w2
          | (Raised e, w2) \<Rightarrow>
              (if isSmiError e then
                 cbFun' recur vbs rid (Some (fst vb, ExcInfo e))
                   (context\<lparr>ctx_idx := Some k, ctx_status := Some STATUS_ERROR\<rparr>) w2
               else (Raised e, w2))
          | (OutOfFuel, w2) \<Rightarrow> (OutOfFuel, w2)) = (out, w')"
      using Cons.prems(1) None r
      by (simp add: enumerate_simps Let_def w1_def [symmetric] mctx_def [symmetric])
    show ?thesis
    proof (cases o1)
      case Returned
      with step have rest: "dispatch recur t vbs rid st su a context (enumerate (Suc k) rest) w2
          = (out, w')" by simp
      from cnt1 [OF Returned] show ?thesis
      proof
        assume c: "counts w2 rid \<le> Suc k \<and> new1 = []"
        from Cons.prems(2) have l: "Suc k + length rest = length vbs" by simp
        from Cons.prems(4) mono1 have rd: "rid < nextRound w2" by simp
        from Cons.IH [OF rest l _ rd] c obtain new2 where
          mono2: "nextRound w2 \<le> nextRound w'"
          and tr2: "trace w' = trace w2 @ new2"
          and g2: "syncGood t (\<lambda>r i. (r = rid \<and> Suc k \<le> i)
                      \<or> (nextRound w2 \<le> r \<and> r < nextRound w')) new2 out"
          by auto
        from raised Returned have nr: "\<And>e. t rid st k \<noteq> Raises e" by auto
        have "syncGood t ?B (Dispatch rid st k # new2) out"
          using g2
        proof (rule syncGood_Cons)
          show "\<And>e. t rid st k = Raises e \<Longrightarrow> isSmiError e \<or> out = Raised e" using nr by simp
          show "\<And>r i. (r = rid \<and> Suc k \<le> i) \<or> (nextRound w2 \<le> r \<and> r < nextRound w')
                \<Longrightarrow> r = rid \<Longrightarrow> k \<le> i \<and> (\<forall>e. t rid st k \<noteq> Raises e)"
            using nr rd by auto
          show "\<And>r i. (r = rid \<and> Suc k \<le> i) \<or> (nextRound w2 \<le> r \<and> r < nextRound w')
                \<Longrightarrow> ?B r i" using mono1 by auto
          show "?B rid k" by simp
        qed
        with mono1 mono2 tr1 tr2 c show ?thesis by auto
      next
        assume "Suc k = length vbs"
        with Cons.prems(2) have "rest = []" by (cases rest) auto
        with rest have fin: "out = Returned" "w' = w2" by simp_all
        have "syncGood t ?B (Dispatch rid st k # new1) out"
          using g1 [unfolded Returned fin(1) [symmetric]]
        proof (rule syncGood_Cons)
          show "\<And>e. t rid st k = Raises e \<Longrightarrow> isSmiError e \<or> out = Raised e"
            using raised Returned by auto
          show "\<And>r i. nextRound w \<le> r \<and> r < nextRound w2
                \<Longrightarrow> r = rid \<Longrightarrow> k \<le> i \<and> (\<forall>e. t rid st k \<noteq> Raises e)"
            using Cons.prems(4) by auto
          show "\<And>r i. nextRound w \<le> r \<and> r < nextRound w2 \<Longrightarrow> ?B r i" using fin by auto
          show "?B rid k" by simp
        qed
        with fin Returned mono1 tr1 show ?thesis by auto
      qed
    next
      case OutOfFuel
      with step have fin: "out = OutOfFuel" "w' = w2" by simp_all
      have "syncGood t ?B (Dispatch rid st k # new1) out"
        using g1 [unfolded OutOfFuel fin(1) [symmetric]]
      proof (rule syncGood_Cons)
        show "\<And>e. t rid st k = Raises e \<Longrightarrow> isSmiError e \<or> out = Raised e"
          using raised OutOfFuel by auto
        show "\<And>r i. nextRound w \<le> r \<and> r < nextRound w2
              \<Longrightarrow> r = rid \<Longrightarrow> k \<le> i \<and> (\<forall>e. t rid st k \<noteq> Raises e)"
          using Cons.prems(4) by auto
        show "\<And>r i. nextRound w \<le> r \<and> r < nextRound w2 \<Longrightarrow> ?B r i" using fin by auto
        show "?B rid k" by simp
      qed
      with fin mono1 tr1 show ?thesis by auto
    next
      case (Raised e)
      show ?thesis
      proof (cases "isSmiError e")
        case False
        with step Raised have fin: "out = Raised e" "w' = w2" by simp_all
        have "syncGood t ?B (Dispatch rid st k # new1) out"
          using g1 [unfolded Raised fin(1) [symmetric]]
        proof (rule syncGood_Cons)
          show "\<And>e'. t rid st k = Raises e' \<Longrightarrow> isSmiError e' \<or> out = Raised e'"
            using raised Raised fin by auto
          show "\<And>r i. nextRound w \<le> r \<and> r < nextRound w2
                \<Longrightarrow> r = rid \<Longrightarrow> k \<le> i \<and> (\<forall>e. t rid st k \<noteq> Raises e)"
            using Cons.prems(4) by auto
          show "\<And>r i. nextRound w \<le> r \<and> r < nextRound w2 \<Longrightarrow> ?B r i" using fin by auto
          show "?B rid k" by simp
        qed
        with fin mono1 tr1 show ?thesis by auto
      next
        case True
        with step Raised have run: "cbFun' recur vbs rid (Some (fst vb, ExcInfo e))
                   (context\<lparr>ctx_idx := Some k, ctx_status := Some STATUS_ERROR\<rparr>) w2 = (out, w')"
          by simp
        from cbFun'_sync [OF C run] obtain new3 where
          mono3: "nextRound w2 \<le> nextRound w'"
          and tr3: "trace w' = trace w2 @ new3"
          and g3: "syncGood t (\<lambda>r i. nextRound w2 \<le> r \<and> r < nextRound w') new3 out"
          by auto
        have g13: "syncGood t (\<lambda>r i. (nextRound w \<le> r \<and> r < nextRound w2)
                     \<or> (nextRound w2 \<le> r \<and> r < nextRound w')) (new1 @ new3) out"
          using g1 Raised True g3 by (rule syncGood_append) auto
        have "syncGood t ?B (Dispatch rid st k # (new1 @ new3)) out"
          using g13
        proof (rule syncGood_Cons)
          show "\<And>e'. t rid st k = Raises e' \<Longrightarrow> isSmiError e' \<or> out = Raised e'"
            using raised Raised True by auto
          show "\<And>r i. (nextRound w \<le> r \<and> r < nextRound w2)
                     \<or> (nextRound w2 \<le> r \<and> r < nextRound w')
                \<Longrightarrow> r = rid \<Longrightarrow> k \<le> i \<and> (\<forall>e. t rid st k \<noteq> Raises e)"
            using Cons.prems(4) mono1 by auto
          show "\<And>r i. (nextRound w \<le> r \<and> r < nextRound w2)
                     \<or> (nextRound w2 \<le> r \<and> r < nextRound w') \<Longrightarrow> ?B r i"
            using mono1 mono3 by auto
          show "?B rid k" by simp
        qed
        with mono1 mono3 tr1 tr3 show ?thesis by auto
      qed
    qed
  qed
qed

lemma enter_frame:
  "enter vbs context w = (e, x, w1) \<Longrightarrow>
   nextRound w1 = nextRound w \<and> trace w1 = trace w \<and> counts w1 = counts w
   \<and> pending w1 = pending w"
  by (auto simp: enter_def Let_def split: option.splits prod.splits)

lemma round_sync:
  assumes C: "syncContract t recur"
  shows "syncContract t (flipFlopFsmRound recur t tbl vbs)"
  unfolding syncContract_def
proof (intro allI impI)
  fix cx w0 out w'
  assume run: "flipFlopFsmRound recur t tbl vbs cx w0 = (out, w')"
  define rid where "rid = nextRound w0"
  define w where "w = w0\<lparr>counts := (counts w0)(rid := 0), nextRound := Suc rid\<rparr>"
  let ?G = "nextRound w0 \<le> nextRound w'
     \<and> (\<exists>new. trace w' = trace w0 @ new
          \<and> syncGood t (\<lambda>r i. nextRound w0 \<le> r \<and> r < nextRound w') new out)"
  have w: "nextRound w = Suc rid" "trace w = trace w0" "counts w rid = 0"
    by (simp_all add: w_def)
  show ?G
  proof (cases "ctx_cbFun cx")
    case None
    with run have "out = Raised (KeyError ''cbFun'')" "w' = w"
      by (simp_all add: flipFlopFsmRound_def Let_def rid_def w_def)
    then show ?thesis using w by (simp add: syncGood_Nil rid_def)
  next
    case (Some cb)
    obtain e st0 su a w1 where en: "enter vbs cx w = (e, (st0, su, a), w1)"
      by (metis prod.exhaust)
    note fr = enter_frame [OF en]
    show ?thesis
    proof (cases e)
      case (Some ex)
      with run \<open>ctx_cbFun cx = Some cb\<close> en have "out = Raised ex" "w' = w1"
        by (simp_all add: flipFlopFsmRound_def Let_def rid_def [symmetric] w_def [symmetric])
      then show ?thesis using w fr by (simp add: syncGood_Nil rid_def)
    next
      case None
      show ?thesis
      proof (cases "newState tbl st0 su")
        case (Inl ex)
        with run \<open>ctx_cbFun cx = Some cb\<close> en None have "out = Raised ex" "w' = w1"
          by (simp_all add: flipFlopFsmRound_def Let_def rid_def [symmetric] w_def [symmetric])
        then show ?thesis using w fr by (simp add: syncGood_Nil rid_def)
      next
        case (Inr st)
        from run \<open>ctx_cbFun cx = Some cb\<close> en None Inr have body:
          "(if st = STATE_STOP then
                     stop cb (heap w1 a)
                       (cx\<lparr>ctx_fsmContext := False, ctx_state := None, ctx_status := None,
                                ctx_varBinds := None, ctx_oName := False\<rparr>) w1
                   else if vbs = [] then cbFun' recur vbs rid None cx w1
                   else if st \<notin> set phaseMethods then
                     (Raised (SmiError ''Unsupported state handler''), w1)
                   else
                     dispatch recur t vbs rid st su a cx (enumerate 0 vbs) w1) = (out, w')"
          by (simp add: flipFlopFsmRound_def Let_def rid_def [symmetric] w_def [symmetric])
        consider (stop) "st = STATE_STOP"
          | (empty) "st \<noteq> STATE_STOP" "vbs = []"
          | (nohandler) "st \<noteq> STATE_STOP" "vbs \<noteq> []" "st \<notin> set phaseMethods"
          | (loop) "st \<noteq> STATE_STOP" "vbs \<noteq> []" "st \<in> set phaseMethods"
          by blast
        then show ?thesis
        proof cases
          case stop
          with body have s: "stop cb (heap w1 a)
                       (cx\<lparr>ctx_fsmContext := False, ctx_state := None, ctx_status := None,
                                ctx_varBinds := None, ctx_oName := False\<rparr>) w1 = (out, w')"
            by simp
          show ?thesis
          proof (cases cb)
            case UserCbFun
            with s have "out = Returned" "nextRound w' = nextRound w1"
              "\<exists>b c. trace w' = trace w1 @ [Delivered b c]"
              by (auto simp: stop_def)
            then show ?thesis using w fr by (auto simp: syncGood_def rid_def)
          next
            case (RoundCbFun r)
            with s have "w' = w1" by (simp add: stop_def)
            then show ?thesis using w fr by (simp add: syncGood_Nil rid_def)
          qed
        next
          case empty
          with body have "cbFun' recur vbs rid None cx w1 = (out, w')" by simp
          from cbFun'_sync [OF C this] obtain new where
            m: "nextRound w1 \<le> nextRound w'" and tr: "trace w' = trace w1 @ new"
            and g: "syncGood t (\<lambda>r i. nextRound w1 \<le> r \<and> r < nextRound w') new out"
            by auto
          from g have "syncGood t (\<lambda>r i. nextRound w0 \<le> r \<and> r < nextRound w') new out"
            by (rule syncGood_weaken) (use w fr in \<open>auto simp: rid_def\<close>)
          with m tr w fr show ?thesis by (auto simp: rid_def)
        next
          case nohandler
          with body have "w' = w1" by simp
          then show ?thesis using w fr by (simp add: syncGood_Nil rid_def)
        next
          case loop
          with body have d: "dispatch recur t vbs rid st su a cx (enumerate 0 vbs) w1
              = (out, w')" by simp
          have "nextRound w1 \<le> nextRound w'
             \<and> (\<exists>new. trace w' = trace w1 @ new
                  \<and> syncGood t (\<lambda>r i. (r = rid \<and> 0 \<le> i)
                        \<or> (nextRound w1 \<le> r \<and> r < nextRound w')) new out)"
            using d w fr by (intro dispatch_sync [OF C]) simp_all
          then obtain new where
            m: "nextRound w1 \<le> nextRound w'" and tr: "trace w' = trace w1 @ new"
            and g: "syncGood t (\<lambda>r i. (r = rid \<and> 0 \<le> i)
                        \<or> (nextRound w1 \<le> r \<and> r < nextRound w')) new out"
            by auto
          from g have "syncGood t (\<lambda>r i. nextRound w0 \<le> r \<and> r < nextRound w') new out"
            by (rule syncGood_weaken) (use w fr m in \<open>auto simp: rid_def\<close>)
          with m tr w fr show ?thesis by (auto simp: rid_def)
        qed
      qed
    qed
  qed
qed

lemma flipFlopFsm_sync: "syncContract t (flipFlopFsm fuel t tbl vbs)"
proof (induction fuel)
  case 0
  show ?case by (simp add: syncContract_def syncGood_Nil)
next
  case (Suc fuel)
  then show ?case by (simp add: round_sync)
qed

lemma watchExc_ExcInfo:
  "watchExc (ExcInfo e) = Inr m \<Longrightarrow> semantic e"
  by (auto simp: watchExc_eq semantic_def split: if_splits)

lemma semantic_isSmiError: "semantic e \<Longrightarrow> isSmiError e"
  by (auto simp: semantic_def)

lemma produced_iff:
  "produced t vbs R i x \<longleftrightarrow>
     (\<exists>r s. r < R \<and> s \<in> set phaseMethods \<and> outputOf (vbs ! i) (t r s i) = Some x)"
  by (auto simp: produced_def)

lemma produced_mono: "produced t vbs R i x \<Longrightarrow> R \<le> R' \<Longrightarrow> produced t vbs R' i x"
  unfolding produced_iff by (meson less_le_trans)

lemma allProduced_frame:
  assumes "allProduced t vbs a w" and "heap w' a = heap w a" and "pending w' = pending w"
    and "\<forall>b c. Delivered b c \<in> set (trace w') \<longrightarrow> Delivered b c \<in> set (trace w)"
    and "nextRound w \<le> nextRound w'"
  shows "allProduced t vbs a w'"
proof -
  have p: "\<And>i x. produced t vbs (nextRound w) i x \<Longrightarrow> produced t vbs (nextRound w') i x"
    using assms(5) by (rule produced_mono [rotated])
  from assms(1) have "pendOK t vbs a w'"
    using assms(3,5) unfolding allProduced_def pendOK_def by fastforce
  moreover from assms(1) have "delivOK t vbs w'"
    using assms(4) p unfolding allProduced_def delivOK_def by blast
  ultimately show ?thesis
    using assms(1,2) p unfolding allProduced_def by auto
qed

lemma allProduced_stored:
  assumes "allProduced t vbs a w" and "produced t vbs (nextRound w) i x"
  shows "allProduced t vbs a (stored w a i x rid)"
proof -
  from assms(1) have "pendOK t vbs a (stored w a i x rid)"
    unfolding allProduced_def pendOK_def by simp
  moreover from assms(1) have "delivOK t vbs (stored w a i x rid)"
    unfolding allProduced_def delivOK_def by simp
  moreover have "\<forall>j < length vbs.
      produced t vbs (nextRound w) j ((heap w a)[i := x] ! j)"
  proof (intro allI impI)
    fix j assume j: "j < length vbs"
    show "produced t vbs (nextRound w) j ((heap w a)[i := x] ! j)"
    proof (cases "j = i")
      case True
      with j assms show ?thesis unfolding allProduced_def by simp
    next
      case False
      with j assms(1) show ?thesis unfolding allProduced_def by simp
    qed
  qed
  ultimately show ?thesis
    using assms(1) unfolding allProduced_def by simp
qed

lemma cbFun'_later:
  assumes C: "laterContract t vbs a recur"
    and run: "cbFun' recur vbs rid vb cx w = (out, w')"
    and A: "allProduced t vbs a w"
    and cx: "ctx_varBinds cx = Some a" "ctx_state cx \<noteq> None" "ctx_status cx \<noteq> None"
    and prod: "\<And>i nm v v'. ctx_idx cx = Some i \<Longrightarrow> vb = Some (nm, v) \<Longrightarrow> watchExc v = Inr v'
                 \<Longrightarrow> produced t vbs (nextRound w) i (nm, v')"
  shows "allProduced t vbs a w' \<and> nextRound w \<le> nextRound w'
         \<and> (\<forall>e. out = Raised e \<longrightarrow> \<not> semantic e)"
  using run
proof (cases rule: cbFun'_cases)
  case (raise e)
  then show ?thesis using A semantic_isSmiError by auto
next
  case (store a' i nm v v')
  with cx have "a' = a" by simp
  with store prod A show ?thesis by (simp add: allProduced_stored)
next
  case (recur a' i nm v v')
  with cx have a: "a' = a" by simp
  from recur prod have "produced t vbs (nextRound w) i (nm, v')" by simp
  with A have "allProduced t vbs a (stored w a i (nm, v') rid)" by (rule allProduced_stored)
  with C recur(7) a cx show ?thesis
    unfolding laterContract_def by (fastforce simp: nextContext_def)
qed

lemma allProduced_logged:
  "allProduced t vbs a w \<Longrightarrow> allProduced t vbs a (w\<lparr>trace := trace w @ [Dispatch rid st k]\<rparr>)"
  by (rule allProduced_frame) auto

lemma allProduced_deferred:
  assumes "allProduced t vbs a w" and "rid < nextRound w" and "k < length vbs"
    and "st \<in> set phaseMethods" and "t rid st k = CompletesLater vb"
    and "ctx_varBinds m = Some a" "ctx_state m \<noteq> None" "ctx_status m \<noteq> None"
      "ctx_idx m = Some k"
  shows "allProduced t vbs a (w\<lparr>pending := pending w @ [(rid, vb, m)]\<rparr>)"
proof -
  have "pendOK t vbs a (w\<lparr>pending := pending w @ [(rid, vb, m)]\<rparr>)"
    using assms unfolding allProduced_def pendOK_def by auto
  moreover from assms(1) have "delivOK t vbs (w\<lparr>pending := pending w @ [(rid, vb, m)]\<rparr>)"
    unfolding allProduced_def delivOK_def by simp
  ultimately show ?thesis using assms(1) unfolding allProduced_def by simp
qed

lemma produced_by:
  "r < R \<Longrightarrow> s \<in> set phaseMethods \<Longrightarrow> outputOf (vbs ! i) (t r s i) = Some x
   \<Longrightarrow> produced t vbs R i x"
  unfolding produced_iff by blast

lemma call_later:
  assumes C: "laterContract t vbs a recur"
    and r: "(case t rid st k of
               Raises e \<Rightarrow> (Raised e, w1)
             | CompletesNow vb \<Rightarrow> cbFun' recur vbs rid (Some vb) mctx w1
             | CompletesLater vb \<Rightarrow> (Returned, w1\<lparr>pending := pending w1 @ [(rid, vb, mctx)]\<rparr>))
            = (o1, w2)"
    and A: "allProduced t vbs a w1" and rid: "rid < nextRound w1" and k: "k < length vbs"
    and st: "st \<in> set phaseMethods"
    and m: "ctx_varBinds mctx = Some a" "ctx_state mctx \<noteq> None" "ctx_status mctx \<noteq> None"
      "ctx_idx mctx = Some k"
  shows "allProduced t vbs a w2 \<and> nextRound w1 \<le> nextRound w2
     \<and> (\<forall>e v'. o1 = Raised e \<longrightarrow> watchExc (ExcInfo e) = Inr v'
           \<longrightarrow> produced t vbs (nextRound w2) k (fst (vbs ! k), v'))"
proof (cases "t rid st k")
  case (Raises e)
  with r have "o1 = Raised e" "w2 = w1" by simp_all
  moreover have "\<And>v'. watchExc (ExcInfo e) = Inr v'
       \<Longrightarrow> produced t vbs (nextRound w1) k (fst (vbs ! k), v')"
    using rid st by (rule produced_by) (simp add: Raises outputOf_def)
  ultimately show ?thesis using A by auto
next
  case (CompletesLater vb)
  with r have "o1 = Returned" "w2 = w1\<lparr>pending := pending w1 @ [(rid, vb, mctx)]\<rparr>"
    by simp_all
  with allProduced_deferred [OF A rid k st CompletesLater m] show ?thesis by simp
next
  case (CompletesNow vb)
  with r have run: "cbFun' recur vbs rid (Some vb) mctx w1 = (o1, w2)" by simp
  have "\<And>i nm v v'. ctx_idx mctx = Some i \<Longrightarrow> Some vb = Some (nm, v) \<Longrightarrow> watchExc v = Inr v'
       \<Longrightarrow> produced t vbs (nextRound w1) i (nm, v')"
  proof -
    fix i nm v v' assume "ctx_idx mctx = Some i" "Some vb = Some (nm, v)" "watchExc v = Inr v'"
    with m(4) have "i = k" "outputOf (vbs ! k) (t rid st k) = Some (nm, v')"
      by (auto simp: CompletesNow outputOf_def)
    with rid st show "produced t vbs (nextRound w1) i (nm, v')"
      by (auto intro: produced_by)
  qed
  from cbFun'_later [OF C run A m(1-3) this]
  have "allProduced t vbs a w2" "nextRound w1 \<le> nextRound w2"
    "\<forall>e. o1 = Raised e \<longrightarrow> \<not> semantic e"
    by auto
  then show ?thesis using watchExc_ExcInfo by blast
qed

lemma drop_eq_ConsD:
  assumes "x # xs = drop k ys"
  shows "k < length ys \<and> x = ys ! k \<and> xs = drop (Suc k) ys"
proof -
  from assms have k: "k < length ys" by (metis drop_all list.distinct(1) not_le)
  from Cons_nth_drop_Suc [OF k] assms have "ys ! k # drop (Suc k) ys = x # xs" by simp
  with k show ?thesis by simp
qed

lemma dispatch_later:
  assumes C: "laterContract t vbs a recur"
    and st: "st \<in> set phaseMethods"
    and cx: "ctx_varBinds cx = Some a" "ctx_state cx \<noteq> None" "ctx_status cx \<noteq> None"
  shows "dispatch recur t vbs rid st su a cx (enumerate k rest) w = (out, w') \<Longrightarrow>
     rest = drop k vbs \<Longrightarrow> allProduced t vbs a w \<Longrightarrow> rid < nextRound w \<Longrightarrow>
     allProduced t vbs a w' \<and> nextRound w \<le> nextRound w'
     \<and> (\<forall>e. out = Raised e \<longrightarrow> \<not> semantic e)"
proof (induction rest arbitrary: k w)
  case Nil
  then show ?case by simp
next
  case (Cons vb rest)
  from drop_eq_ConsD [OF Cons.prems(2)]
  have k: "k < length vbs" and vb: "vb = vbs ! k" and rest: "rest = drop (Suc k) vbs"
    by simp_all
  show ?case
  proof (cases "ctx_idx cx")
    case (Some x)
    with Cons.prems(1,3) show ?thesis by (auto simp: semantic_def)
  next
    case None
    define w1 where "w1 = w\<lparr>trace := trace w @ [Dispatch rid st k]\<rparr>"
    define mctx where "mctx = cx\<lparr>ctx_cbFun := Some (RoundCbFun rid), ctx_idx := Some k,
                          ctx_state := Some st, ctx_status := Some su,
                          ctx_varBinds := Some a, ctx_oName := True\<rparr>"
    obtain o1 w2 where r:
      "(case t rid st k of
               Raises e \<Rightarrow> (Raised e, w1)
             | CompletesNow vb \<Rightarrow> cbFun' recur vbs rid (Some vb) mctx w1
             | CompletesLater vb \<Rightarrow> (Returned, w1\<lparr>pending := pending w1 @ [(rid, vb, mctx)]\<rparr>))
            = (o1, w2)"
      by (meson prod.exhaust)
    have A1: "allProduced t vbs a w1"
      unfolding w1_def using Cons.prems(3) by (rule allProduced_logged)
    have rid1: "rid < nextRound w1" using Cons.prems(4) by (simp add: w1_def)
    have m: "ctx_varBinds mctx = Some a" "ctx_state mctx \<noteq> None" "ctx_status mctx \<noteq> None"
      "ctx_idx mctx = Some k"
      by (simp_all add: mctx_def)
    from call_later [OF C r A1 rid1 k st m] have
      A2: "allProduced t vbs a w2" and mono: "nextRound w \<le> nextRound w2"
      and pr: "\<And>e v'. o1 = Raised e \<Longrightarrow> watchExc (ExcInfo e) = Inr v'
           \<Longrightarrow> produced t vbs (nextRound w2) k (fst (vbs ! k), v')"
      by (auto simp: w1_def)
    have step: "(case (o1, w2) of
            (Returned, w2) \<Rightarrow> dispatch recur t vbs rid st su a cx (enumerate (Suc k) rest) w2
          | (Raised e, w2) \<Rightarrow>
              (if isSmiError e then
                 cbFun' recur vbs rid (Some (fst vb, ExcInfo e))
                   (cx\<lparr>ctx_idx := Some k, ctx_status := Some STATUS_ERROR\<rparr>) w2
               else (Raised e, w2))
          | (OutOfFuel, w2) \<Rightarrow> (OutOfFuel, w2)) = (out, w')"
      using Cons.prems(1) None r
      by (simp add: Let_def w1_def [symmetric] mctx_def [symmetric])
    show ?thesis
    proof (cases o1)
      case Returned
      with step have "dispatch recur t vbs rid st su a cx (enumerate (Suc k) rest) w2
          = (out, w')" by simp
      from Cons.IH [OF this rest A2] Cons.prems(4) mono show ?thesis by auto
    next
      case OutOfFuel
      with step A2 mono show ?thesis by auto
    next
      case (Raised e)
      show ?thesis
      proof (cases "isSmiError e")
        case False
        with step Raised A2 mono semantic_isSmiError show ?thesis by auto
      next
        case True
        with step Raised have run: "cbFun' recur vbs rid (Some (fst vb, ExcInfo e))
                   (cx\<lparr>ctx_idx := Some k, ctx_status := Some STATUS_ERROR\<rparr>) w2 = (out, w')"
          by simp
        have "allProduced t vbs a w' \<and> nextRound w2 \<le> nextRound w'
              \<and> (\<forall>e. out = Raised e \<longrightarrow> \<not> semantic e)"
          using C run A2
        proof (rule cbFun'_later)
          show "ctx_varBinds (cx\<lparr>ctx_idx := Some k, ctx_status := Some STATUS_ERROR\<rparr>) = Some a"
            using cx by simp
          show "ctx_state (cx\<lparr>ctx_idx := Some k, ctx_status := Some STATUS_ERROR\<rparr>) \<noteq> None"
            using cx by simp
          show "ctx_status (cx\<lparr>ctx_idx := Some k, ctx_status := Some STATUS_ERROR\<rparr>) \<noteq> None"
            by simp
          show "\<And>i nm v v'.
              ctx_idx (cx\<lparr>ctx_idx := Some k, ctx_status := Some STATUS_ERROR\<rparr>) = Some i \<Longrightarrow>
              Some (fst vb, ExcInfo e) = Some (nm, v) \<Longrightarrow> watchExc v = Inr v' \<Longrightarrow>
              produced t vbs (nextRound w2) i (nm, v')"
            using pr [OF Raised] vb by auto
        qed
        with mono show ?thesis by auto
      qed
    qed
  qed
qed

lemma round_later:
  assumes C: "laterContract t vbs a recur"
  shows "laterContract t vbs a (flipFlopFsmRound recur t tbl vbs)"
  unfolding laterContract_def
proof (intro allI impI)
  fix cx w0 out w'
  assume run: "flipFlopFsmRound recur t tbl vbs cx w0 = (out, w')"
    and A0: "allProduced t vbs a w0"
    and cx: "ctx_varBinds cx = Some a" "ctx_state cx \<noteq> None" "ctx_status cx \<noteq> None"
  define rid where "rid = nextRound w0"
  define w where "w = w0\<lparr>counts := (counts w0)(rid := 0), nextRound := Suc rid\<rparr>"
  let ?G = "allProduced t vbs a w' \<and> nextRound w0 \<le> nextRound w'
        \<and> (\<forall>e. out = Raised e \<longrightarrow> \<not> semantic e)"
  have A: "allProduced t vbs a w"
    using A0 by (rule allProduced_frame) (simp_all add: w_def rid_def)
  have w: "nextRound w = Suc rid" by (simp add: w_def)
  from cx obtain st0 su where cxs: "ctx_state cx = Some st0" "ctx_status cx = Some su" by auto
  with cx have en: "enter vbs cx w = (None, (st0, su, a), w)" by (simp add: enter_def)
  show ?G
  proof (cases "ctx_cbFun cx")
    case None
    with run have "out = Raised (KeyError ''cbFun'')" "w' = w"
      by (simp_all add: flipFlopFsmRound_def Let_def rid_def w_def)
    then show ?thesis using A w by (simp add: rid_def semantic_def)
  next
    case (Some cb)
    show ?thesis
    proof (cases "newState tbl st0 su")
      case (Inl ex)
      with run Some en have "out = Raised ex" "w' = w"
        by (simp_all add: flipFlopFsmRound_def Let_def rid_def [symmetric] w_def [symmetric])
      moreover from Inl have "\<not> semantic ex"
        by (auto simp: newState_def semantic_def split: option.splits)
      ultimately show ?thesis using A w by (simp add: rid_def)
    next
      case (Inr st)
      from run Some en Inr have body:
        "(if st = STATE_STOP then
                   stop cb (heap w a)
                     (cx\<lparr>ctx_fsmContext := False, ctx_state := None, ctx_status := None,
                              ctx_varBinds := None, ctx_oName := False\<rparr>) w
                 else if vbs = [] then cbFun' recur vbs rid None cx w
                 else if st \<notin> set phaseMethods then
                   (Raised (SmiError ''Unsupported state handler''), w)
                 else
                   dispatch recur t vbs rid st su a cx (enumerate 0 vbs) w) = (out, w')"
        by (simp add: flipFlopFsmRound_def Let_def rid_def [symmetric] w_def [symmetric])
      consider (stop) "st = STATE_STOP"
        | (empty) "st \<noteq> STATE_STOP" "vbs = []"
        | (nohandler) "st \<noteq> STATE_STOP" "vbs \<noteq> []" "st \<notin> set phaseMethods"
        | (loop) "st \<noteq> STATE_STOP" "vbs \<noteq> []" "st \<in> set phaseMethods"
        by blast
      then show ?thesis
      proof cases
        case stop
        with body have s: "stop cb (heap w a)
                     (cx\<lparr>ctx_fsmContext := False, ctx_state := None, ctx_status := None,
                              ctx_varBinds := None, ctx_oName := False\<rparr>) w = (out, w')"
          by simp
        show ?thesis
        proof (cases cb)
          case UserCbFun
          with s have o: "out = Returned"
            and w': "w' = w\<lparr>trace := trace w @ [Delivered (heap w a)
                     (cx\<lparr>ctx_fsmContext := False, ctx_state := None, ctx_status := None,
                              ctx_varBinds := None, ctx_oName := False\<rparr>)]\<rparr>"
            by (auto simp: stop_def)
          have "delivOK t vbs w'"
            using A unfolding w' allProduced_def delivOK_def by auto
          moreover have "pendOK t vbs a w'"
            using A unfolding w' allProduced_def pendOK_def by auto
          ultimately have "allProduced t vbs a w'"
            using A unfolding w' allProduced_def by simp
          with o w w' show ?thesis by (simp add: rid_def)
        next
          case (RoundCbFun r)
          with s have "w' = w" "out = Raised (KeyError ''varBinds'')" by (simp_all add: stop_def)
          then show ?thesis using A w by (simp add: rid_def semantic_def)
        qed
      next
        case empty
        with body have "cbFun' recur vbs rid None cx w = (out, w')" by simp
        from cbFun'_later [OF C this A cx] show ?thesis
          using w by (auto simp: rid_def)
      next
        case nohandler
        with body have "w' = w" "out = Raised (SmiError ''Unsupported state handler'')"
          by simp_all
        then show ?thesis using A w by (simp add: rid_def semantic_def)
      next
        case loop
        with body have d: "dispatch recur t vbs rid st su a cx (enumerate 0 vbs) w
            = (out, w')" by simp
        from dispatch_later [OF C loop(3) cx d _ A] w show ?thesis
          by (auto simp: rid_def)
      qed
    qed
  qed
qed

lemma flipFlopFsm_later: "laterContract t vbs a (flipFlopFsm fuel t tbl vbs)"
proof (induction fuel)
  case 0
  show ?case by (simp add: laterContract_def)
next
  case (Suc fuel)
  then show ?case by (simp add: round_later)
qed

lemma delivered_Nil_iff: "delivered evs = [] \<longleftrightarrow> (\<forall>b c. Delivered b c \<notin> set evs)"
proof (induction evs)
  case Nil
  show ?case by (simp add: delivered_def)
next
  case (Cons ev evs)
  then show ?case by (cases ev) (auto simp: delivered_def)
qed

lemma in_delivered_iff: "b \<in> set (delivered evs) \<longleftrightarrow> (\<exists>c. Delivered b c \<in> set evs)"
proof (induction evs)
  case Nil
  show ?case by (simp add: delivered_def)
next
  case (Cons ev evs)
  then show ?case by (cases ev) (auto simp: delivered_def)
qed

text \<open>
  C10. The loop catches \<^verbatim>\<open>SmiError\<close> only. When a phase method invoked during the call
  of an entry point raises another exception, that exception is the outcome of the call:
  it reaches the caller, and nothing has been handed to the continuation.
\<close>

theorem other_exception_propagates:
  assumes "entry \<in> {readVars, readNextVars, writeVars}"
    and "entry fuel t vbs cx w = (out, w')"
    and "trace w' = trace w @ new"
    and "Dispatch r s i \<in> set new" and "t r s i = Raises e" and "\<not> isSmiError e"
  shows "out = Raised e \<and> delivered new = []"
proof -
  from assms(1,2) obtain tbl where "flipFlopFsm fuel t tbl vbs cx w = (out, w')"
    by (auto simp: readVars_def readNextVars_def writeVars_def)
  with flipFlopFsm_sync [of t fuel tbl vbs] obtain new' where
    "trace w' = trace w @ new'"
    "syncGood t (\<lambda>r i. nextRound w \<le> r \<and> r < nextRound w') new' out"
    unfolding syncContract_def by blast
  with assms(3) have g: "syncGood t (\<lambda>r i. nextRound w \<le> r \<and> r < nextRound w') new out"
    by simp
  with assms(4-6) have out: "out = Raised e" unfolding syncGood_def by blast
  with g have "\<forall>b c. Delivered b c \<notin> set new" unfolding syncGood_def by auto
  with out show ?thesis by (simp add: delivered_Nil_iff)
qed

theorem other_exception_propagates_witness:
  "readVars \<in> {readVars, readNextVars, writeVars}
   \<and> trace (snd (readVars 5 crashingGet twoBindings topContext (initWorld freshController)))
      = trace (initWorld freshController)
        @ [Dispatch 0 STATE_READ_TEST 0, Dispatch 0 STATE_READ_TEST 1,
           Dispatch 1 STATE_READ_GET 0, Dispatch 1 STATE_READ_GET 1]
   \<and> crashingGet 1 STATE_READ_GET 1 = Raises (OtherException 0)
   \<and> \<not> isSmiError (OtherException 0)
   \<and> fst (readVars 5 crashingGet twoBindings topContext (initWorld freshController))
      = Raised (OtherException 0)
   \<and> delivered [Dispatch 0 STATE_READ_TEST 0, Dispatch 0 STATE_READ_TEST 1,
           Dispatch 1 STATE_READ_GET 0, Dispatch 1 STATE_READ_GET 1 :: nat event] = []"
  using other_exception_propagates [of readVars 5 crashingGet twoBindings topContext
      "initWorld freshController"
      "fst (readVars 5 crashingGet twoBindings topContext (initWorld freshController))"
      "snd (readVars 5 crashingGet twoBindings topContext (initWorld freshController))"
      "[Dispatch 0 STATE_READ_TEST 0, Dispatch 0 STATE_READ_TEST 1,
           Dispatch 1 STATE_READ_GET 0, Dispatch 1 STATE_READ_GET 1]"
      1 STATE_READ_GET 1 "OtherException 0"]
  by (simp add: readVars_def eval_nat_numeral engine_defs fsmReadVar_def indexMib_fresh
      crashingGet_def twoBindings_def delivered_def)

lemma syncGood_stops:
  "syncGood t (\<lambda>r i. lo \<le> r \<and> r < hi) new out \<Longrightarrow> stopsGood t lo hi new"
  unfolding syncGood_def stopsGood_def by blast

lemma stopsGood_Nil: "stopsGood t lo hi []"
  by (simp add: stopsGood_def)

lemma stopsGood_append:
  assumes "stopsGood t lo mid new1" and "stopsGood t mid hi new2" and "lo \<le> mid" "mid \<le> hi"
  shows "stopsGood t lo hi (new1 @ new2)"
  unfolding stopsGood_def
proof (intro conjI allI impI)
  fix r s i assume "Dispatch r s i \<in> set (new1 @ new2)"
  then show "lo \<le> r" using assms unfolding stopsGood_def by fastforce
next
  fix r s i assume "Dispatch r s i \<in> set (new1 @ new2)"
  then show "r < hi" using assms unfolding stopsGood_def by fastforce
next
  fix r s i e s' j
  assume a: "Dispatch r s i \<in> set (new1 @ new2)" "t r s i = Raises e"
    "Dispatch r s' j \<in> set (new1 @ new2)"
  from a(1) have "Dispatch r s i \<in> set new1 \<or> Dispatch r s i \<in> set new2" by simp
  moreover from a(3) have "Dispatch r s' j \<in> set new1 \<or> Dispatch r s' j \<in> set new2" by simp
  ultimately consider
    "Dispatch r s i \<in> set new1" "Dispatch r s' j \<in> set new1"
    | "Dispatch r s i \<in> set new2" "Dispatch r s' j \<in> set new2"
    | "Dispatch r s i \<in> set new1" "Dispatch r s' j \<in> set new2"
    | "Dispatch r s i \<in> set new2" "Dispatch r s' j \<in> set new1"
    by blast
  then show "j \<le> i"
  proof cases
    case 1 then show ?thesis using assms(1) a(2) unfolding stopsGood_def by blast
  next
    case 2 then show ?thesis using assms(2) a(2) unfolding stopsGood_def by blast
  next
    case 3
    from 3(1) assms(1) have "r < mid" unfolding stopsGood_def by blast
    moreover from 3(2) assms(2) have "mid \<le> r" unfolding stopsGood_def by blast
    ultimately show ?thesis by simp
  next
    case 4
    from 4(1) assms(2) have "mid \<le> r" unfolding stopsGood_def by blast
    moreover from 4(2) assms(1) have "r < mid" unfolding stopsGood_def by blast
    ultimately show ?thesis by simp
  qed
qed

lemma complete_stops:
  "nextRound w \<le> nextRound (complete fuel t tbl vbs w j)
   \<and> (\<exists>new. trace (complete fuel t tbl vbs w j) = trace w @ new
        \<and> stopsGood t (nextRound w) (nextRound (complete fuel t tbl vbs w j)) new)"
proof (cases "j < length (pending w)")
  case False
  then show ?thesis by (simp add: complete_def stopsGood_Nil)
next
  case True
  obtain rid vb m where p: "pending w ! j = (rid, vb, m)" by (metis prod.exhaust)
  define w1 where "w1 = w\<lparr>pending := take j (pending w) @ drop (Suc j) (pending w)\<rparr>"
  obtain out w' where run:
    "cbFun' (flipFlopFsm fuel t tbl vbs) vbs rid (Some vb) m w1 = (out, w')"
    by (metis prod.exhaust)
  with True p have c: "complete fuel t tbl vbs w j = w'"
    by (simp add: complete_def w1_def)
  from cbFun'_sync [OF flipFlopFsm_sync run] show ?thesis
    unfolding c by (auto simp: w1_def dest: syncGood_stops)
qed

lemma foldl_complete_stops:
  "nextRound w \<le> nextRound (foldl (complete fuel t tbl vbs) w order)
   \<and> (\<exists>new. trace (foldl (complete fuel t tbl vbs) w order) = trace w @ new
        \<and> stopsGood t (nextRound w) (nextRound (foldl (complete fuel t tbl vbs) w order)) new)"
proof (induction order arbitrary: w)
  case Nil
  show ?case by (simp add: stopsGood_Nil)
next
  case (Cons j order)
  let ?w1 = "complete fuel t tbl vbs w j"
  let ?wf = "foldl (complete fuel t tbl vbs) ?w1 order"
  from complete_stops [of w fuel t tbl vbs j] obtain new1 where
    m1: "nextRound w \<le> nextRound ?w1" and t1: "trace ?w1 = trace w @ new1"
    and s1: "stopsGood t (nextRound w) (nextRound ?w1) new1"
    by blast
  from Cons.IH [of ?w1] obtain new2 where
    m2: "nextRound ?w1 \<le> nextRound ?wf" and t2: "trace ?wf = trace ?w1 @ new2"
    and s2: "stopsGood t (nextRound ?w1) (nextRound ?wf) new2"
    by blast
  from stopsGood_append [OF s1 s2 m1 m2] m1 m2 t1 t2 show ?case by auto
qed

text \<open>
  C4, amended. When a phase-method invocation for binding \<open>i\<close> raises during a round, no
  binding of a greater index is dispatched in that round: every invocation of that round,
  in the call of the entry point or after any of the completions that arrive later, is
  for an index up to \<open>i\<close>.
\<close>

theorem raise_ends_round:
  assumes "trace (run fuel t tbl vbs cx order w) = trace w @ new"
    and "Dispatch r s i \<in> set new" and "t r s i = Raises e"
    and "Dispatch r s' j \<in> set new"
  shows "j \<le> i"
proof -
  obtain out w1 where f: "flipFlopFsm fuel t tbl vbs cx w = (out, w1)" by (metis prod.exhaust)
  with flipFlopFsm_sync [of t fuel tbl vbs] obtain new1 where
    m1: "nextRound w \<le> nextRound w1" and t1: "trace w1 = trace w @ new1"
    and "syncGood t (\<lambda>r i. nextRound w \<le> r \<and> r < nextRound w1) new1 out"
    unfolding syncContract_def by blast
  then have s1: "stopsGood t (nextRound w) (nextRound w1) new1" by (auto dest: syncGood_stops)
  let ?wf = "foldl (complete fuel t tbl vbs) w1 order"
  from foldl_complete_stops [of w1 fuel t tbl vbs order] obtain new2 where
    m2: "nextRound w1 \<le> nextRound ?wf" and t2: "trace ?wf = trace w1 @ new2"
    and s2: "stopsGood t (nextRound w1) (nextRound ?wf) new2"
    by blast
  have "run fuel t tbl vbs cx order w = ?wf" by (simp add: run_def f)
  with assms(1) t1 t2 have "new = new1 @ new2" by simp
  with stopsGood_append [OF s1 s2 m1 m2] have "stopsGood t (nextRound w) (nextRound ?wf) new"
    by simp
  with assms(2-4) show ?thesis unfolding stopsGood_def by blast
qed

theorem raise_ends_round_witness:
  "trace (run 5 vanishing fsmReadVar twoBindings topContext [] (initWorld freshController))
     = trace (initWorld freshController)
       @ [Dispatch 0 STATE_READ_TEST 0, Dispatch 0 STATE_READ_TEST 1,
          Dispatch 1 STATE_READ_GET 0]
   \<and> vanishing 1 STATE_READ_GET 0 = Raises NoSuchObjectError
   \<and> Dispatch 1 STATE_READ_GET 1
       \<notin> set [Dispatch 0 STATE_READ_TEST 0, Dispatch 0 STATE_READ_TEST 1,
          Dispatch 1 STATE_READ_GET 0 :: nat event]
   \<and> (0::nat) \<le> 0"
  using raise_ends_round [of 5 vanishing fsmReadVar twoBindings topContext "[]"
      "initWorld freshController"
      "[Dispatch 0 STATE_READ_TEST 0, Dispatch 0 STATE_READ_TEST 1, Dispatch 1 STATE_READ_GET 0]"
      1 STATE_READ_GET 0 NoSuchObjectError STATE_READ_GET 0]
  by (simp add: run_def eval_nat_numeral engine_defs fsmReadVar_def indexMib_fresh
      vanishing_def twoBindings_def)

lemma cbFun'_no_varBinds:
  "ctx_varBinds cx = None \<Longrightarrow>
   cbFun' recur vbs rid vb cx w = (Raised (KeyError ''varBinds''), w)"
  by (simp add: cbFun'_def Let_def)

lemma pendOK_updates [simp]:
  "pendOK t vbs a (w\<lparr>trace := tr\<rparr>) = pendOK t vbs a w"
  "pendOK t vbs a (stored w a' i x rid) = pendOK t vbs a w"
  unfolding pendOK_def by simp_all

lemma isPending_updates [simp]:
  "isPending (w\<lparr>trace := tr\<rparr>) j = isPending w j"
  "isPending (stored w a' i x rid) j = isPending w j"
  unfolding isPending_def by simp_all

lemma pendOKD:
  "pendOK t vbs a w \<Longrightarrow> (r, vb, m) \<in> set (pending w) \<Longrightarrow>
   r < nextRound w \<and> ctx_varBinds m = Some a \<and> ctx_state m \<noteq> None \<and> ctx_status m \<noteq> None
   \<and> (\<exists>i s. ctx_idx m = Some i \<and> i < length vbs \<and> s \<in> set phaseMethods
         \<and> t r s i = CompletesLater vb)"
  unfolding pendOK_def by blast

lemma delivered_append: "delivered (xs @ ys) = delivered xs @ delivered ys"
  by (simp add: delivered_def)

lemma delivered_Dispatch: "delivered [Dispatch r s i] = []"
  by (simp add: delivered_def)

lemma firstRound_stalled:
  assumes "firstRound t vbs a k w" and "k \<le> length vbs"
  shows "stalled t vbs a w"
proof -
  from assms(1) have c: "counts w 0 + length (pending w) \<le> k"
    and all: "\<forall>i < k. isPending w i \<or> produced t vbs 1 i (heap w a ! i)"
    and rest: "length (heap w a) = length vbs" "nextRound w = 1" "pendOK t vbs a w"
      "delivered (trace w) = []"
    unfolding firstRound_def by simp_all
  from c assms(2) have le: "counts w 0 + length (pending w) \<le> length vbs" by arith
  have "length vbs \<le> counts w 0 + length (pending w) \<longrightarrow>
          (\<forall>i < length vbs. isPending w i \<or> produced t vbs 1 i (heap w a ! i))"
  proof
    assume "length vbs \<le> counts w 0 + length (pending w)"
    with c assms(2) have "k = length vbs" by arith
    with all show "\<forall>i < length vbs. isPending w i \<or> produced t vbs 1 i (heap w a ! i)"
      by simp
  qed
  with le rest show ?thesis unfolding stalled_def by simp
qed

lemma firstRound_logged:
  "firstRound t vbs a k w \<Longrightarrow> firstRound t vbs a k (w\<lparr>trace := trace w @ [Dispatch rid st j]\<rparr>)"
  unfolding firstRound_def
  by (simp add: delivered_append delivered_Dispatch)

lemma firstRound_deferred:
  assumes "firstRound t vbs a k w" and "k < length vbs"
    and "st \<in> set phaseMethods" and "t 0 st k = CompletesLater vb"
    and "ctx_varBinds m = Some a" "ctx_state m \<noteq> None" "ctx_status m \<noteq> None"
      "ctx_idx m = Some k"
  shows "firstRound t vbs a (Suc k) (w\<lparr>pending := pending w @ [(0, vb, m)]\<rparr>)"
proof -
  let ?w = "w\<lparr>pending := pending w @ [(0, vb, m)]\<rparr>"
  from assms(1) have P: "pendOK t vbs a w" and nr: "nextRound w = 1"
    and c: "counts w 0 + length (pending w) \<le> k"
    and all: "\<forall>i < k. isPending w i \<or> produced t vbs 1 i (heap w a ! i)"
    and len: "length (heap w a) = length vbs" and nd: "delivered (trace w) = []"
    unfolding firstRound_def by simp_all
  have "pendOK t vbs a ?w"
    unfolding pendOK_def
  proof (intro allI impI)
    fix r vb' m'
    assume "(r, vb', m') \<in> set (pending ?w)"
    then consider "(r, vb', m') \<in> set (pending w)" | "r = 0" "vb' = vb" "m' = m" by auto
    then show "r < nextRound ?w \<and> ctx_varBinds m' = Some a \<and> ctx_state m' \<noteq> None
        \<and> ctx_status m' \<noteq> None
        \<and> (\<exists>i s. ctx_idx m' = Some i \<and> i < length vbs \<and> s \<in> set phaseMethods
              \<and> t r s i = CompletesLater vb')"
    proof cases
      case 1
      from pendOKD [OF P 1] show ?thesis by simp
    next
      case 2
      have "\<exists>i s. ctx_idx m = Some i \<and> i < length vbs \<and> s \<in> set phaseMethods
              \<and> t 0 s i = CompletesLater vb"
        using assms(2,3,4,8) by blast
      with 2 assms(5-7) nr show ?thesis by simp
    qed
  qed
  moreover have "\<forall>i < Suc k. isPending ?w i \<or> produced t vbs 1 i (heap ?w a ! i)"
  proof (intro allI impI)
    fix i assume "i < Suc k"
    then consider "i = k" | "i < k" by linarith
    then show "isPending ?w i \<or> produced t vbs 1 i (heap ?w a ! i)"
    proof cases
      case 1
      then show ?thesis using assms(8) by (simp add: isPending_def)
    next
      case 2
      with all have "isPending w i \<or> produced t vbs 1 i (heap w a ! i)" by simp
      then show ?thesis by (auto simp: isPending_def)
    qed
  qed
  moreover from c have "counts ?w 0 + length (pending ?w) \<le> Suc k" by simp
  ultimately show ?thesis using len nr nd unfolding firstRound_def by simp
qed

lemma firstRound_stored:
  assumes "firstRound t vbs a k w" and "k < length vbs" and "produced t vbs 1 k x"
  shows "firstRound t vbs a (Suc k) (stored w a k x 0)"
proof -
  let ?w = "stored w a k x 0"
  from assms(1) have P: "pendOK t vbs a w" and nr: "nextRound w = 1"
    and c: "counts w 0 + length (pending w) \<le> k"
    and all: "\<forall>i < k. isPending w i \<or> produced t vbs 1 i (heap w a ! i)"
    and len: "length (heap w a) = length vbs" and nd: "delivered (trace w) = []"
    unfolding firstRound_def by simp_all
  have "pendOK t vbs a ?w"
    using P by simp
  moreover have "\<forall>i < Suc k. isPending ?w i \<or> produced t vbs 1 i (heap ?w a ! i)"
  proof (intro allI impI)
    fix i assume "i < Suc k"
    then consider "i = k" | "i < k" by linarith
    then show "isPending ?w i \<or> produced t vbs 1 i (heap ?w a ! i)"
    proof cases
      case 1
      with assms(2,3) len show ?thesis by simp
    next
      case 2
      with all have "isPending w i \<or> produced t vbs 1 i (heap w a ! i)" by simp
      with 2 show ?thesis by (auto simp: isPending_def)
    qed
  qed
  moreover from c have "counts ?w 0 + length (pending ?w) \<le> Suc k" by simp
  ultimately show ?thesis using len nr nd unfolding firstRound_def by simp
qed

lemma no_Delivered: "delivered evs = [] \<Longrightarrow> Delivered b c \<notin> set evs"
  by (simp add: delivered_Nil_iff)

lemma firstRound_barrier:
  assumes "firstRound t vbs a k w" and "k < length vbs" and "produced t vbs 1 k x"
    and "\<not> counts w 0 + 1 < length vbs"
  shows "allProduced t vbs a (stored w a k x 0) \<and> Suc k = length vbs"
proof -
  let ?w = "stored w a k x 0"
  from assms(1) have c: "counts w 0 + length (pending w) \<le> k"
    and all: "\<forall>i < k. isPending w i \<or> produced t vbs 1 i (heap w a ! i)"
    and len: "length (heap w a) = length vbs" and nr: "nextRound w = 1"
    and nd: "delivered (trace w) = []"
    unfolding firstRound_def by simp_all
  from c assms(2,4) have "length (pending w) = 0" by arith
  then have p: "pending w = []" by simp
  from c assms(2,4) have k: "Suc k = length vbs" by arith
  have "pendOK t vbs a ?w" using p unfolding pendOK_def by simp
  moreover have "delivOK t vbs ?w"
    using nd unfolding delivOK_def by (simp add: delivered_Nil_iff)
  moreover have "\<forall>i < length vbs. produced t vbs (nextRound ?w) i (heap ?w a ! i)"
  proof (intro allI impI)
    fix i assume "i < length vbs"
    with k consider "i = k" | "i < k" by linarith
    then show "produced t vbs (nextRound ?w) i (heap ?w a ! i)"
    proof cases
      case 1
      with assms(2,3) len nr show ?thesis by simp
    next
      case 2
      with all have "isPending w i \<or> produced t vbs 1 i (heap w a ! i)" by simp
      with p have "produced t vbs 1 i (heap w a ! i)" by (simp add: isPending_def)
      with 2 nr show ?thesis by simp
    qed
  qed
  ultimately show ?thesis using len k unfolding allProduced_def by simp
qed

lemma dispatch_first:
  assumes C: "laterContract t vbs a recur"
    and st: "st \<in> set phaseMethods"
    and cx: "ctx_varBinds cx = None"
  shows "dispatch recur t vbs 0 st su a cx (enumerate k rest) w = (out, w') \<Longrightarrow>
     k + length rest = length vbs \<Longrightarrow> firstRound t vbs a k w \<Longrightarrow>
     allProduced t vbs a w' \<or> stalled t vbs a w'"
proof (induction rest arbitrary: k w)
  case Nil
  then show ?case by (auto intro: firstRound_stalled)
next
  case (Cons vb rest)
  from Cons.prems(2) have k: "k < length vbs" and l: "Suc k + length rest = length vbs"
    by simp_all
  have stall: "\<And>w. firstRound t vbs a k w \<Longrightarrow> stalled t vbs a w"
    using k by (auto intro: firstRound_stalled)
  show ?case
  proof (cases "ctx_idx cx")
    case (Some x)
    with Cons.prems(1,3) stall show ?thesis by auto
  next
    case None
    define w1 where "w1 = w\<lparr>trace := trace w @ [Dispatch 0 st k]\<rparr>"
    define mctx where "mctx = cx\<lparr>ctx_cbFun := Some (RoundCbFun 0), ctx_idx := Some k,
                          ctx_state := Some st, ctx_status := Some su,
                          ctx_varBinds := Some a, ctx_oName := True\<rparr>"
    have F1: "firstRound t vbs a k w1"
      unfolding w1_def using Cons.prems(3) by (rule firstRound_logged)
    have m: "ctx_varBinds mctx = Some a" "ctx_state mctx \<noteq> None" "ctx_status mctx \<noteq> None"
      "ctx_idx mctx = Some k"
      by (simp_all add: mctx_def)
    have err: "\<And>e w2. cbFun' recur vbs 0 (Some (fst vb, ExcInfo e))
                   (cx\<lparr>ctx_idx := Some k, ctx_status := Some STATUS_ERROR\<rparr>) w2
                 = (Raised (KeyError ''varBinds''), w2)"
      using cx by (simp add: cbFun'_no_varBinds)
    have step: "(case (case t 0 st k of
               Raises e \<Rightarrow> (Raised e, w1)
             | CompletesNow vb \<Rightarrow> cbFun' recur vbs 0 (Some vb) mctx w1
             | CompletesLater vb \<Rightarrow> (Returned, w1\<lparr>pending := pending w1 @ [(0, vb, mctx)]\<rparr>)) of
            (Returned, w2) \<Rightarrow> dispatch recur t vbs 0 st su a cx (enumerate (Suc k) rest) w2
          | (Raised e, w2) \<Rightarrow>
              (if isSmiError e then
                 cbFun' recur vbs 0 (Some (fst vb, ExcInfo e))
                   (cx\<lparr>ctx_idx := Some k, ctx_status := Some STATUS_ERROR\<rparr>) w2
               else (Raised e, w2))
          | (OutOfFuel, w2) \<Rightarrow> (OutOfFuel, w2)) = (out, w')"
      using Cons.prems(1) None
      by (simp add: Let_def w1_def [symmetric] mctx_def [symmetric])
    show ?thesis
    proof (cases "t 0 st k")
      case (Raises e)
      with step have "w' = w1" by (simp add: err split: if_splits)
      with F1 stall show ?thesis by simp
    next
      case (CompletesLater vb')
      with step have d: "dispatch recur t vbs 0 st su a cx (enumerate (Suc k) rest)
           (w1\<lparr>pending := pending w1 @ [(0, vb', mctx)]\<rparr>) = (out, w')"
        by simp
      from firstRound_deferred [OF F1 k st CompletesLater m]
      show ?thesis by (rule Cons.IH [OF d l])
    next
      case (CompletesNow vb')
      obtain o1 w2 where run: "cbFun' recur vbs 0 (Some vb') mctx w1 = (o1, w2)"
        by (metis prod.exhaust)
      with step CompletesNow have step': "(case (o1, w2) of
            (Returned, w2) \<Rightarrow> dispatch recur t vbs 0 st su a cx (enumerate (Suc k) rest) w2
          | (Raised e, w2) \<Rightarrow>
              (if isSmiError e then
                 cbFun' recur vbs 0 (Some (fst vb, ExcInfo e))
                   (cx\<lparr>ctx_idx := Some k, ctx_status := Some STATUS_ERROR\<rparr>) w2
               else (Raised e, w2))
          | (OutOfFuel, w2) \<Rightarrow> (OutOfFuel, w2)) = (out, w')"
        by simp
      from run show ?thesis
      proof (cases rule: cbFun'_cases)
        case (raise e)
        with step' have "w' = w1" by simp
        with F1 stall show ?thesis by simp
      next
        case (store a' i nm v v')
        with m have eq: "a' = a" "i = k" by simp_all
        from store have "outputOf (vbs ! k) (t 0 st k) = Some (nm, v')"
          by (simp add: CompletesNow outputOf_def)
        with st have "produced t vbs 1 k (nm, v')" by (auto intro: produced_by)
        with F1 k have "firstRound t vbs a (Suc k) (stored w1 a k (nm, v') 0)"
          by (rule firstRound_stored)
        moreover from step' store eq have
          "dispatch recur t vbs 0 st su a cx (enumerate (Suc k) rest)
             (stored w1 a k (nm, v') 0) = (out, w')" by simp
        ultimately show ?thesis using Cons.IH [OF _ l] by blast
      next
        case (recur a' i nm v v')
        with m have eq: "a' = a" "i = k" by simp_all
        from recur have "outputOf (vbs ! k) (t 0 st k) = Some (nm, v')"
          by (simp add: CompletesNow outputOf_def)
        with st have "produced t vbs 1 k (nm, v')" by (auto intro: produced_by)
        from firstRound_barrier [OF F1 k this recur(6)]
        have A: "allProduced t vbs a (stored w1 a k (nm, v') 0)" and last: "Suc k = length vbs"
          by simp_all
        from C recur(7) A eq m have A2: "allProduced t vbs a w2"
          unfolding laterContract_def by (fastforce simp: nextContext_def)
        from last l have "rest = []" by simp
        have "w' = w2"
        proof (cases o1)
          case Returned
          with step' \<open>rest = []\<close> show ?thesis by simp
        next
          case (Raised e)
          with step' show ?thesis by (cases "isSmiError e") (simp_all add: err)
        next
          case OutOfFuel
          with step' show ?thesis by simp
        qed
        with A2 show ?thesis by simp
      qed
    qed
  qed
qed

lemma enter_first:
  assumes "ctx_varBinds cx = None" and "enter vbs cx w = (e, x, w1)"
  shows "x = (STATE_START, STATUS_OK, nextAddr w) \<and> heap w1 (nextAddr w) = vbs
     \<and> nextRound w1 = nextRound w \<and> counts w1 = counts w \<and> pending w1 = pending w
     \<and> trace w1 = trace w"
  using assms by (auto simp: enter_def Let_def split: option.splits prod.splits)

lemma round_first:
  assumes C: "laterContract t vbs (nextAddr w0) recur"
    and run: "flipFlopFsmRound recur t tbl vbs cx w0 = (out, w')"
    and w0: "nextRound w0 = 0" "pending w0 = []" "delivered (trace w0) = []"
    and cx: "ctx_varBinds cx = None" "ctx_cbFun cx = Some cb"
    and hop: "newState tbl STATE_START STATUS_OK = Inr st" "st \<noteq> STATE_STOP"
  shows "allProduced t vbs (nextAddr w0) w' \<or> stalled t vbs (nextAddr w0) w'"
proof -
  define a where "a = nextAddr w0"
  define w where "w = w0\<lparr>counts := (counts w0)(0 := 0), nextRound := Suc 0\<rparr>"
  obtain e x w1 where en: "enter vbs cx w = (e, x, w1)" by (metis prod.exhaust)
  from enter_first [OF cx(1) en] have
    x: "x = (STATE_START, STATUS_OK, a)" and fr: "heap w1 a = vbs" "nextRound w1 = 1"
    "counts w1 0 = 0" "pending w1 = []" "delivered (trace w1) = []"
    using w0 by (simp_all add: w_def a_def)
  have F: "firstRound t vbs a 0 w1"
    using fr unfolding firstRound_def pendOK_def by simp
  then have S: "stalled t vbs a w1" by (rule firstRound_stalled) simp
  show ?thesis
    unfolding a_def [symmetric]
  proof (cases e)
    case (Some ex)
    with run cx en x w0 have "w' = w1"
      by (simp add: flipFlopFsmRound_def Let_def w_def [symmetric])
    with S show "allProduced t vbs a w' \<or> stalled t vbs a w'" by simp
  next
    case None
    from run cx en x w0 None hop have body:
      "(if vbs = [] then cbFun' recur vbs 0 None cx w1
        else if st \<notin> set phaseMethods then
          (Raised (SmiError ''Unsupported state handler''), w1)
        else dispatch recur t vbs 0 st STATUS_OK a cx (enumerate 0 vbs) w1) = (out, w')"
      by (simp add: flipFlopFsmRound_def Let_def w_def [symmetric])
    consider (empty) "vbs = []"
      | (nohandler) "vbs \<noteq> []" "st \<notin> set phaseMethods"
      | (loop) "vbs \<noteq> []" "st \<in> set phaseMethods"
      by blast
    then show "allProduced t vbs a w' \<or> stalled t vbs a w'"
    proof cases
      case empty
      with body cx have "w' = w1" by (simp add: cbFun'_no_varBinds)
      with S show ?thesis by simp
    next
      case nohandler
      with body have "w' = w1" by simp
      with S show ?thesis by simp
    next
      case loop
      with body have d: "dispatch recur t vbs 0 st STATUS_OK a cx (enumerate 0 vbs) w1
          = (out, w')" by simp
      from dispatch_first [OF C [folded a_def] loop(2) cx(1) d _ F] show ?thesis by simp
    qed
  qed
qed

lemma set_without_nth:
  assumes "j < length xs" and "q \<in> set xs" and "q \<noteq> xs ! j"
  shows "q \<in> set (take j xs @ drop (Suc j) xs)"
proof -
  from assms(2) obtain n where n: "n < length xs" "q = xs ! n"
    by (auto simp: in_set_conv_nth)
  with assms(3) have "n \<noteq> j" by auto
  then consider "n < j" | "j < n" by linarith
  then show ?thesis
  proof cases
    case 1
    with n have "n < length (take j xs)" by simp
    then have "take j xs ! n \<in> set (take j xs)" by (rule nth_mem)
    with 1 n show ?thesis by simp
  next
    case 2
    with n have "n - Suc j < length (drop (Suc j) xs)" by simp
    then have "drop (Suc j) xs ! (n - Suc j) \<in> set (drop (Suc j) xs)" by (rule nth_mem)
    moreover from 2 n have "drop (Suc j) xs ! (n - Suc j) = xs ! n" by simp
    ultimately show ?thesis using n by simp
  qed
qed

lemma set_without_nth_subset:
  "q \<in> set (take j xs @ drop (Suc j) xs) \<Longrightarrow> q \<in> set xs"
  by (auto dest: in_set_takeD in_set_dropD)

lemma length_without_nth:
  "j < length xs \<Longrightarrow> Suc (length (take j xs @ drop (Suc j) xs)) = length xs"
  by simp

lemma allProduced_removed:
  assumes "allProduced t vbs a w"
  shows "allProduced t vbs a (w\<lparr>pending := take j (pending w) @ drop (Suc j) (pending w)\<rparr>)"
proof -
  let ?w = "w\<lparr>pending := take j (pending w) @ drop (Suc j) (pending w)\<rparr>"
  from assms have P: "pendOK t vbs a w" unfolding allProduced_def by simp
  have "pendOK t vbs a ?w"
    unfolding pendOK_def
  proof (intro allI impI)
    fix r vb m assume "(r, vb, m) \<in> set (pending ?w)"
    then have "(r, vb, m) \<in> set (pending w)" by (auto dest: in_set_takeD in_set_dropD)
    from pendOKD [OF P this]
    show "r < nextRound ?w \<and> ctx_varBinds m = Some a \<and> ctx_state m \<noteq> None
        \<and> ctx_status m \<noteq> None
        \<and> (\<exists>i s. ctx_idx m = Some i \<and> i < length vbs \<and> s \<in> set phaseMethods
              \<and> t r s i = CompletesLater vb)"
      by simp
  qed
  moreover from assms have "delivOK t vbs ?w" unfolding allProduced_def delivOK_def by simp
  ultimately show ?thesis using assms unfolding allProduced_def by simp
qed

lemma complete_batch:
  assumes "allProduced t vbs a w \<or> stalled t vbs a w"
  shows "allProduced t vbs a (complete fuel t tbl vbs w j)
         \<or> stalled t vbs a (complete fuel t tbl vbs w j)"
proof (cases "j < length (pending w)")
  case False
  with assms show ?thesis by (simp add: complete_def)
next
  case j: True
  obtain rid vb m where p: "pending w ! j = (rid, vb, m)" by (metis prod.exhaust)
  define w1 where "w1 = w\<lparr>pending := take j (pending w) @ drop (Suc j) (pending w)\<rparr>"
  obtain out w' where run:
    "cbFun' (flipFlopFsm fuel t tbl vbs) vbs rid (Some vb) m w1 = (out, w')"
    by (metis prod.exhaust)
  with j p have c: "complete fuel t tbl vbs w j = w'"
    by (simp add: complete_def w1_def)
  from j p have mem: "(rid, vb, m) \<in> set (pending w)" by (metis nth_mem)
  note C = flipFlopFsm_later [of t vbs a fuel tbl]
  from assms show ?thesis
    unfolding c
  proof
    assume A: "allProduced t vbs a w"
    then have P: "pendOK t vbs a w" unfolding allProduced_def by simp
    from pendOKD [OF P mem] obtain i s where
      m: "ctx_varBinds m = Some a" "ctx_state m \<noteq> None" "ctx_status m \<noteq> None"
      and rid: "rid < nextRound w"
      and i: "ctx_idx m = Some i" "i < length vbs" "s \<in> set phaseMethods"
        "t rid s i = CompletesLater vb"
      by blast
    have A1: "allProduced t vbs a w1" unfolding w1_def using A by (rule allProduced_removed)
    have "allProduced t vbs a w' \<and> nextRound w1 \<le> nextRound w'
          \<and> (\<forall>e. out = Raised e \<longrightarrow> \<not> semantic e)"
      using C run A1 m
    proof (rule cbFun'_later)
      fix i' nm v v'
      assume "ctx_idx m = Some i'" "Some vb = Some (nm, v)" "watchExc v = Inr v'"
      with i have "i' = i" "outputOf (vbs ! i) (t rid s i) = Some (nm, v')"
        by (auto simp: outputOf_def)
      with rid i(3) show "produced t vbs (nextRound w1) i' (nm, v')"
        by (auto intro: produced_by simp: w1_def)
    qed
    then show "allProduced t vbs a w' \<or> stalled t vbs a w'" by simp
  next
    assume S: "stalled t vbs a w"
    then have P: "pendOK t vbs a w" and nr: "nextRound w = 1"
      and le: "counts w 0 + length (pending w) \<le> length vbs"
      and all: "length vbs \<le> counts w 0 + length (pending w) \<Longrightarrow>
          (\<forall>i < length vbs. isPending w i \<or> produced t vbs 1 i (heap w a ! i))"
      and len: "length (heap w a) = length vbs" and nd: "delivered (trace w) = []"
      unfolding stalled_def by simp_all
    from pendOKD [OF P mem] nr obtain i s where
      m: "ctx_varBinds m = Some a" "ctx_state m \<noteq> None" "ctx_status m \<noteq> None"
      and rid: "rid = 0"
      and i: "ctx_idx m = Some i" "i < length vbs" "s \<in> set phaseMethods"
        "t 0 s i = CompletesLater vb"
      by auto
    have P1: "pendOK t vbs a w1"
      unfolding pendOK_def
    proof (intro allI impI)
      fix r vb' m' assume "(r, vb', m') \<in> set (pending w1)"
      then have "(r, vb', m') \<in> set (pending w)"
        by (auto simp: w1_def dest: in_set_takeD in_set_dropD)
      from pendOKD [OF P this]
      show "r < nextRound w1 \<and> ctx_varBinds m' = Some a \<and> ctx_state m' \<noteq> None
        \<and> ctx_status m' \<noteq> None
        \<and> (\<exists>i s. ctx_idx m' = Some i \<and> i < length vbs \<and> s \<in> set phaseMethods
              \<and> t r s i = CompletesLater vb')"
        by (simp add: w1_def)
    qed
    have w1: "counts w1 = counts w" "heap w1 = heap w" "trace w1 = trace w"
      "nextRound w1 = 1" "Suc (length (pending w1)) = length (pending w)"
      using j nr by (simp_all add: w1_def)
    have others: "\<And>i'. i' \<noteq> i \<Longrightarrow> isPending w i' \<Longrightarrow> isPending w1 i'"
    proof -
      fix i' assume ne: "i' \<noteq> i" and "isPending w i'"
      then obtain q where q: "q \<in> set (pending w)" "ctx_idx (snd (snd q)) = Some i'"
        unfolding isPending_def by blast
      with ne i(1) p have "q \<noteq> pending w ! j" by auto
      with j q(1) have "q \<in> set (take j (pending w) @ drop (Suc j) (pending w))"
        by (intro set_without_nth)
      then have "q \<in> set (pending w1)" by (simp add: w1_def)
      with q(2) show "isPending w1 i'" unfolding isPending_def by blast
    qed
    from run show "allProduced t vbs a w' \<or> stalled t vbs a w'"
      unfolding rid
    proof (cases rule: cbFun'_cases)
      case (raise e)
      from le w1 have "counts w1 0 + length (pending w1) < length vbs" by simp
      with P1 w1 len nd have "stalled t vbs a w1" unfolding stalled_def by simp
      with raise show ?thesis by simp
    next
      case (store a' i' nm v v')
      with m i have eq: "a' = a" "i' = i" by simp_all
      from store i have "outputOf (vbs ! i) (t 0 s i) = Some (nm, v')"
        by (simp add: outputOf_def)
      with i(3) have pr: "produced t vbs 1 i (nm, v')" by (auto intro: produced_by)
      let ?w = "stored w1 a i (nm, v') 0"
      have "length vbs \<le> counts ?w 0 + length (pending ?w) \<longrightarrow>
          (\<forall>i' < length vbs. isPending ?w i' \<or> produced t vbs 1 i' (heap ?w a ! i'))"
      proof (intro impI allI)
        fix i' assume "length vbs \<le> counts ?w 0 + length (pending ?w)" and i': "i' < length vbs"
        with w1 have "length vbs \<le> counts w 0 + length (pending w)" by simp
        from all [OF this] i' have d: "isPending w i' \<or> produced t vbs 1 i' (heap w a ! i')"
          by simp
        show "isPending ?w i' \<or> produced t vbs 1 i' (heap ?w a ! i')"
        proof (cases "i' = i")
          case True
          with pr i(2) len w1 show ?thesis by simp
        next
          case False
          with d others [OF False] w1 show ?thesis by auto
        qed
      qed
      moreover from le w1 have "counts ?w 0 + length (pending ?w) \<le> length vbs" by simp
      ultimately have "stalled t vbs a ?w"
        using P1 w1 len nd unfolding stalled_def by simp
      with store eq show ?thesis by simp
    next
      case (recur a' i' nm v v')
      with m i have eq: "a' = a" "i' = i" by simp_all
      from recur i have "outputOf (vbs ! i) (t 0 s i) = Some (nm, v')"
        by (simp add: outputOf_def)
      with i(3) have pr: "produced t vbs 1 i (nm, v')" by (auto intro: produced_by)
      let ?w = "stored w1 a i (nm, v') 0"
      from recur(6) w1(1) have n: "length vbs \<le> Suc (counts w 0)" by simp
      from n le w1(5) have "length (pending w1) = 0" by arith
      then have e1: "pending w1 = []" by simp
      from n le w1(5) have full: "length vbs \<le> counts w 0 + length (pending w)" by arith
      have "\<forall>i' < length vbs. produced t vbs (nextRound ?w) i' (heap ?w a ! i')"
      proof (intro allI impI)
        fix i' assume i': "i' < length vbs"
        from all [OF full] i' have d: "isPending w i' \<or> produced t vbs 1 i' (heap w a ! i')"
          by simp
        show "produced t vbs (nextRound ?w) i' (heap ?w a ! i')"
        proof (cases "i' = i")
          case True
          with pr i(2) len w1 show ?thesis by simp
        next
          case False
          from others [OF False] e1 have "\<not> isPending w i'" by (auto simp: isPending_def)
          with d False w1 show ?thesis by simp
        qed
      qed
      moreover have "pendOK t vbs a ?w" using P1 by simp
      moreover have "delivOK t vbs ?w"
        using nd w1 unfolding delivOK_def by (simp add: delivered_Nil_iff)
      ultimately have "allProduced t vbs a ?w"
        using len w1 unfolding allProduced_def by simp
      with C recur(7) eq m have "allProduced t vbs a w'"
        unfolding laterContract_def by (fastforce simp: nextContext_def)
      then show ?thesis by simp
    qed
  qed
qed

lemma foldl_complete_batch:
  "allProduced t vbs a w \<or> stalled t vbs a w \<Longrightarrow>
   allProduced t vbs a (foldl (complete fuel t tbl vbs) w order)
   \<or> stalled t vbs a (foldl (complete fuel t tbl vbs) w order)"
proof (induction order arbitrary: w)
  case Nil
  then show ?case by simp
next
  case (Cons j order)
  from complete_batch [OF Cons.prems, of fuel tbl j] show ?case
    by (simp add: Cons.IH)
qed

lemma foldl_complete_idle:
  "pending w = [] \<Longrightarrow> foldl (complete fuel t tbl vbs) w order = w"
  by (induction order) (simp_all add: complete_def)

lemma run_batch:
  fixes t :: "'a mibTree"
  assumes "newState tbl STATE_START STATUS_OK = Inr st" and "st \<noteq> STATE_STOP"
  shows "allProduced t vbs 0 (run (Suc fuel) t tbl vbs topContext order (initWorld c))
         \<or> stalled t vbs 0 (run (Suc fuel) t tbl vbs topContext order (initWorld c))"
proof -
  obtain out w1 where r:
    "flipFlopFsmRound (flipFlopFsm fuel t tbl vbs) t tbl vbs topContext (initWorld c) = (out, w1)"
    by (metis prod.exhaust)
  have w0: "nextRound (initWorld c :: 'a world) = 0" "pending (initWorld c :: 'a world) = []"
    "delivered (trace (initWorld c :: 'a world)) = []"
    by (simp_all add: initWorld_def delivered_def)
  have cx: "ctx_varBinds topContext = None" "ctx_cbFun topContext = Some UserCbFun"
    by (simp_all add: topContext_def)
  have "allProduced t vbs (nextAddr (initWorld c :: 'a world)) w1
        \<or> stalled t vbs (nextAddr (initWorld c :: 'a world)) w1"
    using flipFlopFsm_later r w0 cx assms by (rule round_first)
  then have "allProduced t vbs 0 w1 \<or> stalled t vbs 0 w1" by (simp add: initWorld_def)
  from foldl_complete_batch [OF this, of "Suc fuel" tbl order] r show ?thesis
    by (simp add: run_def)
qed

lemma first_hop:
  "tbl \<in> {fsmReadVar, fsmReadNextVar, fsmWriteVar} \<Longrightarrow>
   \<exists>st. newState tbl STATE_START STATUS_OK = Inr st \<and> st \<noteq> STATE_STOP"
  by (auto simp: newState_def fsmReadVar_def fsmReadNextVar_def fsmWriteVar_def)

text \<open>
  C2. Whatever the tree does and in whatever order the completions put off arrive, every
  batch handed to the continuation by \<^verbatim>\<open>readVars\<close>, \<^verbatim>\<open>readNextVars\<close> or \<^verbatim>\<open>writeVars\<close>
  has as many entries as the batch passed in, and its entry at index \<open>i\<close> is what a phase
  method invoked for binding \<open>i\<close> produced.
\<close>

theorem delivered_batch_in_order:
  assumes "tbl \<in> {fsmReadVar, fsmReadNextVar, fsmWriteVar}"
    and "b \<in> set (delivered (trace (run fuel t tbl vbs topContext order (initWorld c))))"
  shows "length b = length vbs
     \<and> (\<forall>i < length vbs.
          produced t vbs (nextRound (run fuel t tbl vbs topContext order (initWorld c))) i (b ! i))"
proof (cases fuel)
  case 0
  have "run 0 t tbl vbs topContext order (initWorld c) = initWorld c"
    by (simp add: run_def foldl_complete_idle initWorld_def)
  with assms(2) 0 show ?thesis by (simp add: initWorld_def delivered_def)
next
  case (Suc n)
  let ?w = "run fuel t tbl vbs topContext order (initWorld c)"
  from first_hop [OF assms(1)] obtain st where
    "newState tbl STATE_START STATUS_OK = Inr st" "st \<noteq> STATE_STOP" by blast
  from run_batch [OF this, of t vbs n order c] Suc
  have "allProduced t vbs 0 ?w \<or> stalled t vbs 0 ?w" by simp
  moreover from assms(2) have "delivered (trace ?w) \<noteq> []" by auto
  ultimately have "allProduced t vbs 0 ?w" unfolding stalled_def by auto
  then have "delivOK t vbs ?w" unfolding allProduced_def by simp
  moreover from assms(2) obtain cx where "Delivered b cx \<in> set (trace ?w)"
    unfolding in_delivered_iff by blast
  ultimately show ?thesis unfolding delivOK_def by blast
qed

lemma deferring_run:
  "delivered (trace (run 5 deferring fsmReadVar twoBindings topContext [1, 0, 1, 0]
      (initWorld freshController)))
   = [[([1, 3, 6, 0], Value 10), ([1, 3, 6, 1], Value 11)]]"
  by (simp add: run_def complete_def eval_nat_numeral engine_defs fsmReadVar_def indexMib_fresh
      deferring_def twoBindings_def delivered_def)

theorem delivered_batch_in_order_witness:
  "fsmReadVar \<in> {fsmReadVar, fsmReadNextVar, fsmWriteVar}
   \<and> [([1, 3, 6, 0], Value 10), ([1, 3, 6, 1], Value 11)]
       \<in> set (delivered (trace (run 5 deferring fsmReadVar twoBindings topContext [1, 0, 1, 0]
            (initWorld freshController))))
   \<and> length [([1, 3, 6, 0], Value 10), ([1, 3, 6, 1], Value (11::nat))] = length twoBindings
   \<and> produced deferring twoBindings
        (nextRound (run 5 deferring fsmReadVar twoBindings topContext [1, 0, 1, 0]
            (initWorld freshController))) 0 ([1, 3, 6, 0], Value 10)
   \<and> produced deferring twoBindings
        (nextRound (run 5 deferring fsmReadVar twoBindings topContext [1, 0, 1, 0]
            (initWorld freshController))) 1 ([1, 3, 6, 1], Value 11)"
proof -
  have m: "[([1, 3, 6, 0], Value 10), ([1, 3, 6, 1], Value 11)]
       \<in> set (delivered (trace (run 5 deferring fsmReadVar twoBindings topContext [1, 0, 1, 0]
            (initWorld freshController))))"
    unfolding deferring_run by simp
  have t: "fsmReadVar \<in> {fsmReadVar, fsmReadNextVar, fsmWriteVar}" by simp
  from delivered_batch_in_order [OF t m]
  have "length [([1, 3, 6, 0], Value 10), ([1, 3, 6, 1], Value (11::nat))] = length twoBindings"
    and all: "\<forall>i < length twoBindings.
      produced deferring twoBindings
        (nextRound (run 5 deferring fsmReadVar twoBindings topContext [1, 0, 1, 0]
            (initWorld freshController))) i
        ([([1, 3, 6, 0], Value 10), ([1, 3, 6, 1], Value 11)] ! i)"
    by simp_all
  moreover from all [rule_format, of 0] have "produced deferring twoBindings
        (nextRound (run 5 deferring fsmReadVar twoBindings topContext [1, 0, 1, 0]
            (initWorld freshController))) 0 ([1, 3, 6, 0], Value 10)"
    by (simp add: twoBindings_def)
  moreover from all [rule_format, of 1] have "produced deferring twoBindings
        (nextRound (run 5 deferring fsmReadVar twoBindings topContext [1, 0, 1, 0]
            (initWorld freshController))) 1 ([1, 3, 6, 1], Value 11)"
    by (simp add: twoBindings_def)
  ultimately show ?thesis using m t by simp
qed


end
